theory Spec2Isabelle
  imports Complex_Main "HOL-Library.AList"
begin

section \<open>Cell values, rows and errors\<close>

text \<open>
  A cell of a pandas table holds a missing value (\<open>numpy.nan\<close>), a number or a piece of
  text. The program never computes with the numbers: it only compares them (\<open>==\<close>,
  \<open>in\<close>, \<open>isin\<close>), tests them for truth, formats them and casts them to integers.
  A finite number is therefore modelled by the rational it denotes, and \<open>5\<close> and
  \<open>5.0\<close> are the same cell, as they are for Python's \<open>==\<close>; the two infinities of
  a float (\<open>inf\<close> and \<open>-inf\<close>, which \<open>read_csv\<close> also reads from a file) are cells of
  their own.
\<close>

datatype val = NaN | Num rat | PosInf | NegInf | Str string

text \<open>
  The exceptions the program and the library calls it makes can raise. \<open>OSError\<close> stands
  for the subclass that opening a path raises.
\<close>

datatype os_error = FileNotFoundError | IsADirectoryError | NotADirectoryError | PermissionError

datatype error =
    KeyError string
  | TypeError
  | ValueError
  | IndexError
  | AssertionError
  | OverflowError
  | OSError os_error

text \<open>
  A row handed to a row-wise function (\<open>iterrows\<close>, \<open>apply(axis=1)\<close>) is a pandas
  Series: the row's index label and the value of every column, in column order.
\<close>

record row =
  label :: nat
  cells :: "(string \<times> val) list"

text \<open>\<open>row[varname]\<close>: a missing name raises \<open>KeyError\<close>.\<close>

definition getitem :: "row \<Rightarrow> string \<Rightarrow> error + val" where
  "getitem r varname =
     (case map_of (cells r) varname of
        None \<Rightarrow> Inl (KeyError varname)
      | Some v \<Rightarrow> Inr v)"

text \<open>\<open>numpy.isnan\<close> is defined on numbers only; on text it raises \<open>TypeError\<close>.\<close>

fun np_isnan :: "val \<Rightarrow> error + bool" where
  "np_isnan NaN = Inr True"
| "np_isnan (Num _) = Inr False"
| "np_isnan PosInf = Inr False"
| "np_isnan NegInf = Inr False"
| "np_isnan (Str _) = Inl TypeError"

text \<open>\<open>pandas.isna\<close> on a scalar cell never raises.\<close>

definition isna :: "val \<Rightarrow> bool" where
  "isna v = (v = NaN)"

text \<open>Python's truth value of a cell: a number is true unless it is zero (NaN and the
  infinities are true), text is true unless it is empty.\<close>

fun truthy :: "val \<Rightarrow> bool" where
  "truthy NaN = True"
| "truthy (Num x) = (x \<noteq> 0)"
| "truthy PosInf = True"
| "truthy NegInf = True"
| "truthy (Str s) = (s \<noteq> [])"

section \<open>The warning log\<close>

text \<open>
  The state of a \<open>DataLoader\<close> that changes is its list \<open>_warnings\<close>; together with
  \<open>case_id_fun\<close> it is what a computation hook reaches through \<open>add_warning\<close>.
\<close>

record Sink =
  case_id_fun :: "row \<Rightarrow> string"
  warnings :: "(string \<times> string) list"

text \<open>The first argument of \<open>add_warning\<close> is a string or a row (\<open>pd.Series\<close>).\<close>

datatype case_ref = CaseId string | CaseRow row

definition add_warning :: "Sink \<Rightarrow> case_ref \<Rightarrow> string \<Rightarrow> Sink" where
  "add_warning self case_id text =
     (let cid = (case case_id of
                   CaseRow r \<Rightarrow> case_id_fun self r
                 | CaseId s \<Rightarrow> s)
      in self\<lparr>warnings := warnings self @ [(cid, text)]\<rparr>)"

section \<open>Row-wise combinators\<close>

text \<open>
  \<open>'{}'.format(v)\<close> of a cell is Python's own rendering of a float or a string; it is
  a parameter \<open>fmt\<close> of the functions that build a message.
\<close>

datatype on_conflict = Callable "val \<Rightarrow> val \<Rightarrow> val" | Literal val

definition resolve :: "on_conflict \<Rightarrow> val \<Rightarrow> val \<Rightarrow> val" where
  "resolve oc v1 v2 = (case oc of Callable f \<Rightarrow> f v1 v2 | Literal c \<Rightarrow> c)"

text \<open>\<open>np.isnan(v) or v in na_values\<close>\<close>

definition is_nan_or_na :: "val \<Rightarrow> val list \<Rightarrow> error + bool" where
  "is_nan_or_na v na_values =
     (case np_isnan v of
        Inl e \<Rightarrow> Inl e
      | Inr b \<Rightarrow> Inr (b \<or> v \<in> set na_values))"

definition conflict_text :: "(val \<Rightarrow> string) \<Rightarrow> string \<Rightarrow> val \<Rightarrow> string \<Rightarrow> val \<Rightarrow> string" where
  "conflict_text fmt varname1 v1 varname2 v2 =
     ''Valores contradictorios: '' @ varname1 @ ''='' @ fmt v1 @
     '' vs. '' @ varname2 @ ''='' @ fmt v2"

definition combine_variables_row ::
  "(val \<Rightarrow> string) \<Rightarrow> row \<Rightarrow> string \<Rightarrow> string \<Rightarrow> on_conflict \<Rightarrow> val list \<Rightarrow> Sink
     \<Rightarrow> error + (val \<times> Sink)" where
  "combine_variables_row fmt r varname1 varname2 oc na_values loader =
     (case getitem r varname1 of Inl e \<Rightarrow> Inl e | Inr v1 \<Rightarrow>
     (case getitem r varname2 of Inl e \<Rightarrow> Inl e | Inr v2 \<Rightarrow>
     (case is_nan_or_na v1 na_values of Inl e \<Rightarrow> Inl e | Inr is_nan_1 \<Rightarrow>
     (case is_nan_or_na v2 na_values of Inl e \<Rightarrow> Inl e | Inr is_nan_2 \<Rightarrow>
      if is_nan_1 \<and> is_nan_2 then Inr (NaN, loader)
      else if \<not> is_nan_1 \<and> is_nan_2 then Inr (v1, loader)
      else if is_nan_1 \<and> \<not> is_nan_2 then Inr (v2, loader)
      else if v1 = v2 then Inr (v1, loader)
      else
        (let res = resolve oc v1 v2 in
         (case np_isnan res of Inl e \<Rightarrow> Inl e | Inr b \<Rightarrow>
            Inr (res,
                 if b then add_warning loader (CaseRow r)
                             (conflict_text fmt varname1 v1 varname2 v2)
                 else loader)))))))"

text \<open>\<open>lambda v1, v2: v1 or v2\<close>, the resolver of \<open>combine_variables_bool\<close>.\<close>

definition py_or :: "val \<Rightarrow> val \<Rightarrow> val" where
  "py_or v1 v2 = (if truthy v1 then v1 else v2)"

text \<open>\<open>row[variables]\<close> with a list of names: the sub-series of those names, in the
  order asked for; a name that is not in the row raises \<open>KeyError\<close>.\<close>

fun getitems :: "row \<Rightarrow> string list \<Rightarrow> error + (string \<times> val) list" where
  "getitems r [] = Inr []"
| "getitems r (n # ns) =
     (case getitem r n of
        Inl e \<Rightarrow> Inl e
      | Inr v \<Rightarrow> (case getitems r ns of Inl e \<Rightarrow> Inl e | Inr rest \<Rightarrow> Inr ((n, v) # rest)))"

text \<open>\<open>', '.join(...)\<close>\<close>

fun join :: "string \<Rightarrow> string list \<Rightarrow> string" where
  "join sep [] = []"
| "join sep [x] = x"
| "join sep (x # y # ys) = x @ sep @ join sep (y # ys)"

text \<open>
  The message of \<open>_multibool_to_enum_row\<close> looks every name of the fragment up in the
  fragment again (\<open>row_fragment[varname]\<close>). The names of \<open>variables\<close> are taken to be
  distinct, so that the lookup gives one cell.
\<close>

definition value_list :: "(val \<Rightarrow> string) \<Rightarrow> (string \<times> val) list \<Rightarrow> string" where
  "value_list fmt row_fragment =
     join '', ''
       (map (\<lambda>varname. varname @ ''='' @
               (case map_of row_fragment varname of Some v \<Rightarrow> fmt v | None \<Rightarrow> []))
            (map fst row_fragment))"

definition multibool_text :: "(val \<Rightarrow> string) \<Rightarrow> (string \<times> val) list \<Rightarrow> string" where
  "multibool_text fmt row_fragment =
     ''Multi-bool a enum - valores contradictorios: '' @ value_list fmt row_fragment"

text \<open>
  \<open>Series.isna().sum()\<close> counts the missing cells and \<open>Series.isin(na_values).sum()\<close>
  the cells equal to an entry of \<open>na_values\<close>; \<open>isin\<close> matches a missing cell with a
  missing entry (pandas hashes NaN as equal to NaN). \<open>row_fragment == 1.0\<close> compares
  cell by cell and is false on text.
\<close>

definition multibool_to_enum_row ::
  "(val \<Rightarrow> string) \<Rightarrow> row \<Rightarrow> string list \<Rightarrow> val list \<Rightarrow> Sink \<Rightarrow> error + (val \<times> Sink)" where
  "multibool_to_enum_row fmt r variables na_values loader =
     (case getitems r variables of Inl e \<Rightarrow> Inl e | Inr row_fragment \<Rightarrow>
      let num_vars = length variables in
      if length (filter isna (map snd row_fragment))
           + length (filter (\<lambda>v. v \<in> set na_values) (map snd row_fragment)) = num_vars
      then Inr (NaN, loader)
      else
        (let true_vars = filter (\<lambda>(n, v). v = Num 1) row_fragment in
         if length true_vars \<noteq> 1
         then Inr (NaN, add_warning loader (CaseRow r) (multibool_text fmt row_fragment))
         else Inr (Str (fst (hd true_vars)), loader)))"

section \<open>Tables\<close>

text \<open>
  A pandas DataFrame: the row labels (\<open>df.index\<close>) and the columns in order, every
  column a list of cells aligned with the index. A Series is a list of labelled cells.
\<close>

record table =
  index :: "nat list"
  cols :: "(string \<times> val list) list"

type_synonym series = "(nat \<times> val) list"

definition columns :: "table \<Rightarrow> string list" where
  "columns df = map fst (cols df)"

text \<open>The invariant of a DataFrame: column names are distinct and every column has one
  cell per row.\<close>

definition wf_table :: "table \<Rightarrow> bool" where
  "wf_table df \<longleftrightarrow>
     distinct (columns df) \<and> (\<forall>c \<in> set (cols df). length (snd c) = length (index df))"

text \<open>\<open>df[varname]\<close>\<close>

definition getcol :: "table \<Rightarrow> string \<Rightarrow> error + val list" where
  "getcol df varname =
     (case map_of (cols df) varname of
        None \<Rightarrow> Inl (KeyError varname)
      | Some c \<Rightarrow> Inr c)"

text \<open>\<open>df[varname] = values\<close> for values already aligned with the index: an existing
  column is replaced where it stands, a new one is appended.\<close>

definition setcol :: "table \<Rightarrow> string \<Rightarrow> val list \<Rightarrow> table" where
  "setcol df varname c = df\<lparr>cols := AList.update varname c (cols df)\<rparr>"

text \<open>
  \<open>df[varname] = series\<close> aligns the series with the table's index: a label the series
  lacks gets a missing value; a series with a repeated label cannot be realigned
  (\<open>ValueError\<close>) unless its index is the table's own.
\<close>

definition setitem :: "table \<Rightarrow> string \<Rightarrow> series \<Rightarrow> error + table" where
  "setitem df varname s =
     (if map fst s = index df then Inr (setcol df varname (map snd s))
      else if distinct (map fst s)
      then Inr (setcol df varname
                  (map (\<lambda>i. case map_of s i of Some v \<Rightarrow> v | None \<Rightarrow> NaN) (index df)))
      else Inl ValueError)"

text \<open>The value of column \<open>c\<close> in the row labelled \<open>i\<close>.\<close>

definition cell :: "table \<Rightarrow> string \<Rightarrow> nat \<Rightarrow> val option" where
  "cell df c i =
     (case map_of (cols df) c of
        None \<Rightarrow> None
      | Some vs \<Rightarrow> map_of (zip (index df) vs) i)"

text \<open>\<open>df[mask]\<close> with a boolean mask aligned with the rows: the rows where it is true,
  in every column.\<close>

fun keep_mask :: "bool list \<Rightarrow> 'a list \<Rightarrow> 'a list" where
  "keep_mask (b # bs) (x # xs) = (if b then x # keep_mask bs xs else keep_mask bs xs)"
| "keep_mask _ _ = []"

definition select_rows :: "table \<Rightarrow> bool list \<Rightarrow> table" where
  "select_rows df m =
     \<lparr>index = keep_mask m (index df),
      cols = map (\<lambda>(n, c). (n, keep_mask m c)) (cols df)\<rparr>"

text \<open>\<open>df.iterrows()\<close> and the rows of \<open>df.apply(f, axis=1)\<close>, in index order.\<close>

definition row_at :: "table \<Rightarrow> nat \<Rightarrow> row" where
  "row_at df k = \<lparr>label = index df ! k, cells = map (\<lambda>(n, c). (n, c ! k)) (cols df)\<rparr>"

definition iterrows :: "table \<Rightarrow> row list" where
  "iterrows df = map (row_at df) [0..<length (index df)]"

text \<open>
  \<open>df.apply(f, axis=1)\<close>, as documented: \<open>f\<close> is called once on every row, in order,
  each call seeing the warnings of the calls before it; the results form a series on the
  table's index.
\<close>

fun apply_rows ::
  "(row \<Rightarrow> Sink \<Rightarrow> error + (val \<times> Sink)) \<Rightarrow> row list \<Rightarrow> Sink \<Rightarrow> error + (val list \<times> Sink)" where
  "apply_rows f [] loader = Inr ([], loader)"
| "apply_rows f (r # rs) loader =
     (case f r loader of
        Inl e \<Rightarrow> Inl e
      | Inr (v, loader') \<Rightarrow>
          (case apply_rows f rs loader' of
             Inl e \<Rightarrow> Inl e
           | Inr (vs, loader'') \<Rightarrow> Inr (v # vs, loader'')))"

definition df_apply ::
  "(row \<Rightarrow> Sink \<Rightarrow> error + (val \<times> Sink)) \<Rightarrow> table \<Rightarrow> Sink \<Rightarrow> error + (series \<times> Sink)" where
  "df_apply f df loader =
     (case apply_rows f (iterrows df) loader of
        Inl e \<Rightarrow> Inl e
      | Inr (vs, loader') \<Rightarrow> Inr (zip (index df) vs, loader'))"

section \<open>Computation hooks\<close>

text \<open>
  A computation hook is called as \<open>fun(df, loader)\<close> and returns the new column. What it
  does with the loader is to record warnings, so the model hands it the loader's warning
  state and takes the new state back; the table it is given is not changed by it.
\<close>

type_synonym hook = "table \<Rightarrow> Sink \<Rightarrow> error + (series \<times> Sink)"

definition combine_variables ::
  "(val \<Rightarrow> string) \<Rightarrow> string \<Rightarrow> string \<Rightarrow> on_conflict \<Rightarrow> val list \<Rightarrow> hook" where
  "combine_variables fmt varname1 varname2 oc na_values =
     (\<lambda>df loader.
        df_apply (\<lambda>r. combine_variables_row fmt r varname1 varname2 oc na_values) df loader)"

definition DEFAULT_NA_VALUES :: "val list" where
  "DEFAULT_NA_VALUES = [Num 98, Num 99]"

definition combine_variables_bool ::
  "(val \<Rightarrow> string) \<Rightarrow> string \<Rightarrow> string \<Rightarrow> val list \<Rightarrow> hook" where
  "combine_variables_bool fmt varname1 varname2 na_values =
     combine_variables fmt varname1 varname2 (Callable py_or) na_values"

definition multibool_to_enum :: "(val \<Rightarrow> string) \<Rightarrow> string list \<Rightarrow> val list \<Rightarrow> hook" where
  "multibool_to_enum fmt variables na_values =
     (\<lambda>df loader. df_apply (\<lambda>r. multibool_to_enum_row fmt r variables na_values) df loader)"

text \<open>
  \<open>_logical_op\<close>: the masks \<open>df[v] == 1.0\<close> and \<open>df[v] == 0.0\<close> of every listed column
  (the first one twice) are folded with the two combinators; the result is missing, then
  1.0 where the true mask holds, then 0.0 where the false mask holds.
\<close>

fun logical_loop ::
  "(bool \<Rightarrow> bool \<Rightarrow> bool) \<Rightarrow> (bool \<Rightarrow> bool \<Rightarrow> bool) \<Rightarrow> table \<Rightarrow> string list
     \<Rightarrow> bool list \<Rightarrow> bool list \<Rightarrow> error + (bool list \<times> bool list)" where
  "logical_loop tc fc df [] true_values false_values = Inr (true_values, false_values)"
| "logical_loop tc fc df (vname # rest) true_values false_values =
     (case getcol df vname of
        Inl e \<Rightarrow> Inl e
      | Inr c \<Rightarrow>
          logical_loop tc fc df rest
            (map2 tc true_values (map (\<lambda>x. x = Num 1) c))
            (map2 fc false_values (map (\<lambda>x. x = Num 0) c)))"

definition logical_res ::
  "(bool \<Rightarrow> bool \<Rightarrow> bool) \<Rightarrow> (bool \<Rightarrow> bool \<Rightarrow> bool) \<Rightarrow> string list \<Rightarrow> hook" where
  "logical_res tc fc varnames =
     (\<lambda>df loader.
        case getcol df (hd varnames) of
          Inl e \<Rightarrow> Inl e
        | Inr c0 \<Rightarrow>
            (case logical_loop tc fc df varnames
                    (map (\<lambda>x. x = Num 1) c0) (map (\<lambda>x. x = Num 0) c0) of
               Inl e \<Rightarrow> Inl e
             | Inr (true_values, false_values) \<Rightarrow>
                 Inr (zip (index df)
                        (map2 (\<lambda>t f. if f then Num 0 else if t then Num 1 else NaN)
                           true_values false_values),
                      loader)))"

text \<open>The assertion \<open>len(varnames) >= 2\<close> is checked when the hook is built.\<close>

definition logical_op ::
  "(bool \<Rightarrow> bool \<Rightarrow> bool) \<Rightarrow> (bool \<Rightarrow> bool \<Rightarrow> bool) \<Rightarrow> string list \<Rightarrow> error + hook" where
  "logical_op tc fc varnames =
     (if 2 \<le> length varnames then Inr (logical_res tc fc varnames) else Inl AssertionError)"

definition logical_or :: "string list \<Rightarrow> error + hook" where
  "logical_or varnames = logical_op (\<lambda>x y. x \<or> y) (\<lambda>x y. x \<and> y) varnames"

definition logical_and :: "string list \<Rightarrow> error + hook" where
  "logical_and varnames = logical_op (\<lambda>x y. x \<and> y) (\<lambda>x y. x \<or> y) varnames"

section \<open>The loader\<close>

text \<open>
  Modelled from the spec: \<open>VarType\<close> is imported from the module \<open>utils\<close>, which is not
  among the sources. The spec lists the semantic types as Int, Bool, Category, Float;
  the loader tells Category, Bool and Int apart and treats every other type alike.
\<close>

datatype VarType = TInt | TBool | TCategory | TFloat

text \<open>
  The metadata of one variable, a dict with the keys \<open>type\<close>, \<open>mandatory\<close> (default
  false), \<open>labels\<close> (raw value to a sequence whose first entry is the label shown),
  \<open>computation-pre\<close> and \<open>computation-post\<close>.
\<close>

record VariableSpec =
  vtype :: VarType
  mandatory :: bool
  labels :: "(val \<times> val list) list option"
  computation_pre :: "hook option"
  computation_post :: "hook option"

text \<open>\<open>self.variables\<close> is a dict in insertion order: an association list.\<close>

record DataLoader =
  variables :: "(string \<times> VariableSpec) list"
  sink :: Sink

text \<open>\<open>_drop_na\<close>: one warning for every row whose cell is missing, then those rows go.\<close>

definition perdida :: "string \<Rightarrow> string" where
  "perdida varname = varname @ '' perdida''"

definition drop_na :: "DataLoader \<Rightarrow> table \<Rightarrow> string \<Rightarrow> error + (table \<times> DataLoader)" where
  "drop_na self df varname =
     (case getcol df varname of
        Inl e \<Rightarrow> Inl e
      | Inr c \<Rightarrow>
          (let lost_cases = select_rows df (map isna c) in
           if length (index lost_cases) \<noteq> 0
           then Inr (select_rows df (map (\<lambda>v. \<not> isna v) c),
                     self\<lparr>sink := foldl (\<lambda>s r. add_warning s (CaseRow r) (perdida varname))
                                      (sink self) (iterrows lost_cases)\<rparr>)
           else Inr (df, self)))"

datatype calculation_key = Pre | Post

definition get_hook :: "VariableSpec \<Rightarrow> calculation_key \<Rightarrow> hook option" where
  "get_hook var k = (case k of Pre \<Rightarrow> computation_pre var | Post \<Rightarrow> computation_post var)"

fun compute_derived_loop ::
  "calculation_key \<Rightarrow> (string \<times> VariableSpec) list \<Rightarrow> table \<Rightarrow> Sink \<Rightarrow> error + (table \<times> Sink)" where
  "compute_derived_loop k [] df loader = Inr (df, loader)"
| "compute_derived_loop k ((varname, var) # rest) df loader =
     (case get_hook var k of
        None \<Rightarrow> compute_derived_loop k rest df loader
      | Some f \<Rightarrow>
          (case f df loader of
             Inl e \<Rightarrow> Inl e
           | Inr (s, loader') \<Rightarrow>
               (case setitem df varname s of
                  Inl e \<Rightarrow> Inl e
                | Inr df' \<Rightarrow> compute_derived_loop k rest df' loader')))"

definition compute_derived ::
  "DataLoader \<Rightarrow> table \<Rightarrow> calculation_key \<Rightarrow> error + (table \<times> DataLoader)" where
  "compute_derived self df k =
     (case compute_derived_loop k (variables self) df (sink self) of
        Inl e \<Rightarrow> Inl e
      | Inr (df', loader') \<Rightarrow> Inr (df', self\<lparr>sink := loader'\<rparr>))"

text \<open>A function that can raise, applied to every entry of a list in order.\<close>

fun map_err :: "('a \<Rightarrow> error + 'b) \<Rightarrow> 'a list \<Rightarrow> error + 'b list" where
  "map_err f [] = Inr []"
| "map_err f (x # xs) =
     (case f x of
        Inl e \<Rightarrow> Inl e
      | Inr y \<Rightarrow> (case map_err f xs of Inl e \<Rightarrow> Inl e | Inr ys \<Rightarrow> Inr (y # ys)))"

text \<open>
  Category: the column becomes categorical over the keys of \<open>labels\<close> (a cell that is
  no key becomes missing; a missing key is refused), and the categories are renamed to
  the first entry of each value (\<open>value[0]\<close>; the new names must be distinct and not
  missing).
\<close>

definition cat_map :: "(val \<times> val list) list \<Rightarrow> error + (val \<times> val) list" where
  "cat_map lbls =
     map_err (\<lambda>(key, value). case value of [] \<Rightarrow> Inl IndexError | x # _ \<Rightarrow> Inr (key, x)) lbls"

definition coerce_category :: "VariableSpec \<Rightarrow> val list \<Rightarrow> error + val list" where
  "coerce_category vardata c =
     (case labels vardata of
        None \<Rightarrow> Inl (KeyError ''labels'')
      | Some lbls \<Rightarrow>
          if NaN \<in> set (map fst lbls) then Inl ValueError
          else
            (case cat_map lbls of
               Inl e \<Rightarrow> Inl e
             | Inr cm \<Rightarrow>
                 if \<not> distinct (map snd cm) \<or> NaN \<in> set (map snd cm) then Inl ValueError
                 else Inr (map (\<lambda>v. case map_of cm v of None \<Rightarrow> NaN | Some l \<Rightarrow> l) c)))"

text \<open>Bool: \<open>df.loc[~df[varname].isin((0, 1)), [varname]] = np.nan\<close>\<close>

definition coerce_bool :: "val list \<Rightarrow> val list" where
  "coerce_bool c = map (\<lambda>v. if v = Num 0 \<or> v = Num 1 then v else NaN) c"

definition coerce :: "VariableSpec \<Rightarrow> table \<Rightarrow> string \<Rightarrow> error + table" where
  "coerce vardata df varname =
     (if vtype vardata = TCategory
      then
        (case getcol df varname of
           Inl e \<Rightarrow> Inl e
         | Inr c \<Rightarrow>
             (case coerce_category vardata c of
                Inl e \<Rightarrow> Inl e
              | Inr c' \<Rightarrow> Inr (setcol df varname c')))
      else if vtype vardata = TBool
      then
        (case getcol df varname of
           Inl e \<Rightarrow> Inl e
         | Inr c \<Rightarrow> Inr (setcol df varname (coerce_bool c)))
      else Inr df)"

text \<open>
  \<open>astype(np.int64)\<close> of a column. What the cast does with a cell depends on the dtype
  of the column, which a table does not record here: it is a parameter of the cast, the
  dtype the column has when the cast runs.

  \<^item> A \<open>float64\<close> column: a missing or infinite value is refused (\<open>ValueError\<close>); a
    number is truncated towards zero, and outside the 64-bit range the conversion gives
    the smallest 64-bit integer (as on x86-64).
  \<^item> A column of 64-bit integers, signed or unsigned: the bits are kept, so an unsigned
    value from \<open>2^63\<close> on wraps around. (Such a column holds integers only; on any other
    cell the clauses are those of \<open>float64\<close>.)
  \<^item> An \<open>object\<close> column: every cell goes through Python's \<open>int\<close>, in order. A missing
    value raises \<open>ValueError\<close>, an infinity \<open>OverflowError\<close>; a number is truncated and
    must fit 64 bits (\<open>OverflowError\<close> otherwise).

  Text goes through Python's \<open>int\<close>, a parameter \<open>py_int\<close> here, which raises
  \<open>ValueError\<close> on text that is no integer.
\<close>

datatype dtype = Float64 | Integer64 | Object

definition trunc :: "rat \<Rightarrow> int" where
  "trunc x = (if 0 \<le> x then \<lfloor>x\<rfloor> else \<lceil>x\<rceil>)"

definition in_int64 :: "int \<Rightarrow> bool" where
  "in_int64 n \<longleftrightarrow> - (2 ^ 63) \<le> n \<and> n < 2 ^ 63"

definition wrap_int64 :: "int \<Rightarrow> int" where
  "wrap_int64 n = (n + 2 ^ 63) mod 2 ^ 64 - 2 ^ 63"

fun astype_int64 :: "dtype \<Rightarrow> (string \<Rightarrow> int option) \<Rightarrow> val \<Rightarrow> error + val" where
  "astype_int64 d py_int NaN = Inl ValueError"
| "astype_int64 d py_int (Num x) =
     (if in_int64 (trunc x) then Inr (Num (of_int (trunc x)))
      else (case d of
              Float64 \<Rightarrow> Inr (Num (- (2 ^ 63)))
            | Integer64 \<Rightarrow> Inr (Num (of_int (wrap_int64 (trunc x))))
            | Object \<Rightarrow> Inl OverflowError))"
| "astype_int64 d py_int PosInf = (case d of Object \<Rightarrow> Inl OverflowError | _ \<Rightarrow> Inl ValueError)"
| "astype_int64 d py_int NegInf = (case d of Object \<Rightarrow> Inl OverflowError | _ \<Rightarrow> Inl ValueError)"
| "astype_int64 d py_int (Str s) =
     (case py_int s of
        None \<Rightarrow> Inl ValueError
      | Some n \<Rightarrow> if in_int64 n then Inr (Num (of_int n)) else Inl OverflowError)"

text \<open>The body of the loop of \<open>_preprocess\<close> for one column; \<open>dtype_of\<close> gives the dtype
  a column has when it is cast.\<close>

definition process_var ::
  "(string \<Rightarrow> dtype) \<Rightarrow> (string \<Rightarrow> int option) \<Rightarrow> DataLoader \<Rightarrow> table \<Rightarrow> string
     \<Rightarrow> error + (table \<times> DataLoader)" where
  "process_var dtype_of py_int self df varname =
     (case map_of (variables self) varname of
        None \<Rightarrow> Inl (KeyError varname)
      | Some vardata \<Rightarrow>
     (case getcol df varname of
        Inl e \<Rightarrow> Inl e
      | Inr raw \<Rightarrow>
     (case coerce vardata (setcol df (varname @ ''_ORIGINAL'') raw) varname of
        Inl e \<Rightarrow> Inl e
      | Inr df2 \<Rightarrow>
          if mandatory vardata
          then
            (case drop_na self df2 varname of
               Inl e \<Rightarrow> Inl e
             | Inr (df3, self') \<Rightarrow>
                 if vtype vardata = TInt
                 then
                   (case getcol df3 varname of
                      Inl e \<Rightarrow> Inl e
                    | Inr c \<Rightarrow>
                        (case map_err (astype_int64 (dtype_of varname) py_int) c of
                           Inl e \<Rightarrow> Inl e
                         | Inr ints \<Rightarrow> Inr (setcol df3 varname ints, self')))
                 else Inr (df3, self'))
          else Inr (df2, self))))"

text \<open>\<open>for varname in df\<close> runs over the columns the table has when the loop starts;
  the \<open>_ORIGINAL\<close> columns added on the way are not visited.\<close>

fun process_vars ::
  "(string \<Rightarrow> dtype) \<Rightarrow> (string \<Rightarrow> int option) \<Rightarrow> DataLoader \<Rightarrow> table \<Rightarrow> string list
     \<Rightarrow> error + (table \<times> DataLoader)" where
  "process_vars dtype_of py_int self df [] = Inr (df, self)"
| "process_vars dtype_of py_int self df (varname # rest) =
     (case process_var dtype_of py_int self df varname of
        Inl e \<Rightarrow> Inl e
      | Inr (df', self') \<Rightarrow> process_vars dtype_of py_int self' df' rest)"

definition preprocess ::
  "(string \<Rightarrow> dtype) \<Rightarrow> (string \<Rightarrow> int option) \<Rightarrow> DataLoader \<Rightarrow> table
     \<Rightarrow> error + (table \<times> DataLoader)" where
  "preprocess dtype_of py_int self df =
     (case compute_derived self df Pre of
        Inl e \<Rightarrow> Inl e
      | Inr (df1, self1) \<Rightarrow>
          (case process_vars dtype_of py_int self1 df1 (columns df1) of
             Inl e \<Rightarrow> Inl e
           | Inr (df2, self2) \<Rightarrow> compute_derived self2 df2 Post))"

section \<open>Loading a file\<close>

text \<open>
  \<open>pandas.read_csv(fname, usecols=..., na_values=...)\<close>, by its documented contract. A
  path either cannot be opened, and then it raises an \<open>OSError\<close> (\<open>FileNotFoundError\<close>
  for a path that does not exist, \<open>IsADirectoryError\<close> for a directory,
  \<open>PermissionError\<close> for a file that may not be read), or it is a file. A file that
  opens is taken to parse: it is its header, its number of records and the cell of every
  field of every record; the header names are the column names as pandas reads them and
  are taken to be distinct. A file with no column at all raises \<open>EmptyDataError\<close> and a
  name of \<open>usecols\<close> that the header lacks raises \<open>ValueError\<close>, of which
  \<open>EmptyDataError\<close> is a subclass. The table has the columns of \<open>usecols\<close> in the
  file's order, the index 0, 1, ... (no row at all when \<open>usecols\<close> is empty), and text
  equal to an entry of \<open>na_values\<close> read as missing. The cells of the file are given as
  parsed (a number, text, or a field pandas reads as missing by default); markers that
  spell a number are not modelled.
\<close>

record csv_file =
  header :: "string list"
  n_records :: nat
  field :: "string \<Rightarrow> nat \<Rightarrow> val"

type_synonym filesystem = "string \<Rightarrow> os_error + csv_file"

definition na_cell :: "string list \<Rightarrow> val \<Rightarrow> val" where
  "na_cell na_values v = (case v of Str s \<Rightarrow> if s \<in> set na_values then NaN else v | _ \<Rightarrow> v)"

definition read_csv :: "filesystem \<Rightarrow> string \<Rightarrow> string list \<Rightarrow> string list \<Rightarrow> error + table" where
  "read_csv fs fname usecols na_values =
     (case fs fname of
        Inl e \<Rightarrow> Inl (OSError e)
      | Inr f \<Rightarrow>
          if header f = [] then Inl ValueError
          else if \<not> set usecols \<subseteq> set (header f) then Inl ValueError
          else
            (let n = (if usecols = [] then 0 else n_records f) in
             Inr \<lparr>index = [0..<n],
                  cols = map (\<lambda>h. (h, map (\<lambda>j. na_cell na_values (field f h j)) [0..<n]))
                           (filter (\<lambda>h. h \<in> set usecols) (header f))\<rparr>))"

text \<open>
  Modelled from the spec: the result tree \<open>ctx\<close> is a class of the repository that is
  not among the sources. The spec gives its contract,
  \<open>get_result(logical_id).add_table(table_id, title, headings, rows)\<close>; the model
  records every such call, in order, with the rows the log holds at the time of the
  call (the code hands over the list object itself).
\<close>

record table_result =
  result_id :: string
  table_id :: string
  title :: string
  headings :: "string list"
  rows :: "(string \<times> string) list"

type_synonym ResultTree = "table_result list"

definition add_table ::
  "ResultTree \<Rightarrow> string \<Rightarrow> string \<Rightarrow> string \<Rightarrow> string list \<Rightarrow> (string \<times> string) list \<Rightarrow> ResultTree" where
  "add_table ctx rid tid ttl hs rs =
     ctx @ [\<lparr>result_id = rid, table_id = tid, title = ttl, headings = hs, rows = rs\<rparr>]"

text \<open>The names read from the file: the variables with neither computation key.\<close>

definition csv_varnames :: "DataLoader \<Rightarrow> string list" where
  "csv_varnames self =
     map fst (filter (\<lambda>(varname, var). computation_pre var = None \<and> computation_post var = None)
                (variables self))"

definition load_data ::
  "(string \<Rightarrow> dtype) \<Rightarrow> (string \<Rightarrow> int option) \<Rightarrow> filesystem \<Rightarrow> DataLoader \<Rightarrow> string
     \<Rightarrow> ResultTree \<Rightarrow> string list \<Rightarrow> error + (table \<times> DataLoader \<times> ResultTree)" where
  "load_data dtype_of py_int fs self fname ctx na_values =
     (case read_csv fs fname (csv_varnames self) na_values of
        Inl e \<Rightarrow> Inl e
      | Inr df \<Rightarrow>
          (case preprocess dtype_of py_int self df of
             Inl e \<Rightarrow> Inl e
           | Inr (df', self') \<Rightarrow>
               Inr (df', self',
                    add_table ctx ''root'' ''warnings'' ''Warnings'' [''Caso'', '''']
                      (warnings (sink self')))))"

section \<open>The claims in the specification's words\<close>

text \<open>A cell that is a number (finite or not) or missing: the cells \<open>numpy.isnan\<close>
  accepts.\<close>

definition numeric :: "val \<Rightarrow> bool" where
  "numeric v = (case v of Str _ \<Rightarrow> False | _ \<Rightarrow> True)"

text \<open>The cell of a row under a name (missing when the row has no such name).\<close>

definition row_val :: "row \<Rightarrow> string \<Rightarrow> val" where
  "row_val r n = (case map_of (cells r) n of Some v \<Rightarrow> v | None \<Rightarrow> NaN)"

text \<open>
  \<open>combine_variables\<close> as the specification words it: both missing-or-in-na_values gives
  missing; exactly one gives the other; equal values give that value; unequal values are
  a conflict, resolved by \<open>on_conflict\<close>, with a warning when the resolved value is
  missing.
\<close>

definition missing_or_na :: "val \<Rightarrow> val list \<Rightarrow> bool" where
  "missing_or_na v na_values = (v = NaN \<or> v \<in> set na_values)"

definition conflict :: "val list \<Rightarrow> val \<Rightarrow> val \<Rightarrow> bool" where
  "conflict na_values v1 v2 =
     (\<not> missing_or_na v1 na_values \<and> \<not> missing_or_na v2 na_values \<and> v1 \<noteq> v2)"

definition combine_spec :: "on_conflict \<Rightarrow> val list \<Rightarrow> val \<Rightarrow> val \<Rightarrow> val" where
  "combine_spec oc na_values v1 v2 =
     (if missing_or_na v1 na_values \<and> missing_or_na v2 na_values then NaN
      else if missing_or_na v2 na_values then v1
      else if missing_or_na v1 na_values then v2
      else if v1 = v2 then v1
      else resolve oc v1 v2)"

definition combine_warnings_spec ::
  "(val \<Rightarrow> string) \<Rightarrow> string \<Rightarrow> string \<Rightarrow> on_conflict \<Rightarrow> val list \<Rightarrow> string \<Rightarrow> val \<Rightarrow> val
     \<Rightarrow> (string \<times> string) list" where
  "combine_warnings_spec fmt a b oc na_values cid v1 v2 =
     (if conflict na_values v1 v2 \<and> resolve oc v1 v2 = NaN
      then [(cid, conflict_text fmt a v1 b v2)]
      else [])"

text \<open>
  \<open>logical_or\<close> and \<open>logical_and\<close> as the specification words them, on the cells of one
  row under the listed variables.
\<close>

definition or_spec :: "val list \<Rightarrow> val" where
  "or_spec vs =
     (if \<exists>v \<in> set vs. v = Num 1 then Num 1
      else if \<forall>v \<in> set vs. v = Num 0 then Num 0
      else NaN)"

definition and_spec :: "val list \<Rightarrow> val" where
  "and_spec vs =
     (if \<forall>v \<in> set vs. v = Num 1 then Num 1
      else if \<exists>v \<in> set vs. v = Num 0 then Num 0
      else NaN)"

section \<open>Auxiliary notions\<close>

text \<open>
  A table \<open>t'\<close> evolves from \<open>t\<close> by writes to the columns \<open>W\<close> and by dropping rows: it
  is well formed, its rows are rows of \<open>t\<close>, it has the columns of \<open>t\<close>, and outside \<open>W\<close>
  every remaining cell is the cell of \<open>t\<close>.
\<close>

definition evolves :: "string set \<Rightarrow> table \<Rightarrow> table \<Rightarrow> bool" where
  "evolves W t t' \<longleftrightarrow>
     wf_table t' \<and> distinct (index t') \<and> set (index t') \<subseteq> set (index t)
     \<and> set (columns t) \<subseteq> set (columns t')
     \<and> (\<forall>x. x \<notin> W \<longrightarrow>
           (\<forall>i \<in> set (index t'). cell t' x i = cell t x i)
           \<and> (\<forall>c. getcol t x = Inr c \<longrightarrow> (\<exists>c'. getcol t' x = Inr c' \<and> set c' \<subseteq> set c)))"

text \<open>The second sink is the first with warnings appended at the end.\<close>

definition appends :: "Sink \<Rightarrow> Sink \<Rightarrow> bool" where
  "appends s s' \<longleftrightarrow> (\<exists>ws. s' = s\<lparr>warnings := warnings s @ ws\<rparr>)"

text \<open>Every computation hook of the registry uses the loader only to append warnings
  (as \<open>add_warning\<close> does).\<close>

definition hooks_append :: "(string \<times> VariableSpec) list \<Rightarrow> bool" where
  "hooks_append vars \<longleftrightarrow>
     (\<forall>p \<in> set vars. \<forall>h. computation_pre (snd p) = Some h \<or> computation_post (snd p) = Some h \<longrightarrow>
        (\<forall>t s ser s'. h t s = Inr (ser, s') \<longrightarrow> (\<exists>ws. s' = s\<lparr>warnings := warnings s @ ws\<rparr>)))"




section \<open>Example data\<close>

text \<open>A rendering of the cells that occur in the examples, standing for Python's.\<close>

definition fmt_demo :: "val \<Rightarrow> string" where
  "fmt_demo v =
     (case v of
        NaN \<Rightarrow> ''nan''
      | Num x \<Rightarrow> (if x = 5 then ''5.0'' else if x = 7 then ''7.0'' else if x = 1 then ''1.0''
                  else if x = 0 then ''0.0'' else ''98.0'')
      | PosInf \<Rightarrow> ''inf''
      | NegInf \<Rightarrow> ''-inf''
      | Str s \<Rightarrow> s)"

definition demo_sink :: Sink where
  "demo_sink =
     \<lparr>case_id_fun = (\<lambda>r. [''case 0'', ''case 1'', ''case 2'', ''case 3'', ''case 4''] ! label r),
      warnings = []\<rparr>"


definition demo_bool :: table where
  "demo_bool = \<lparr>index = [0, 1, 2],
                cols = [(''A'', [Num 1, Num 0, Num 0]),
                        (''B'', [NaN, Num 0, NaN]),
                        (''C'', [Num 0, Num 1, Num 1])]\<rparr>"

text \<open>
  A loader with a mandatory Int variable, a Bool variable, a Float variable and a variable
  derived from the last two in the pre-pass; a file with a missing age (written as the
  marker \<open>' '\<close>) and a conflict in its second record, and an extra column the registry
  does not declare; two more files, one with text in a combined column and one that
  lacks a declared column; a directory. The columns of the examples are \<open>float64\<close>.
\<close>

definition no_int :: "string \<Rightarrow> int option" where
  "no_int s = None"

definition float_cols :: "string \<Rightarrow> dtype" where
  "float_cols varname = Float64"

definition plain :: "VarType \<Rightarrow> bool \<Rightarrow> VariableSpec" where
  "plain ty m = \<lparr>vtype = ty, mandatory = m, labels = None,
                  computation_pre = None, computation_post = None\<rparr>"

definition demo_variables :: "(string \<times> VariableSpec) list" where
  "demo_variables =
     [(''age'', plain TInt True),
      (''w1'', plain TBool False),
      (''w2'', plain TFloat False),
      (''w'', (plain TFloat False)\<lparr>computation_pre :=
                 Some (combine_variables fmt_demo ''w1'' ''w2'' (Literal NaN) DEFAULT_NA_VALUES)\<rparr>)]"

definition demo_loader :: "(string \<times> string) list \<Rightarrow> DataLoader" where
  "demo_loader ws = \<lparr>variables = demo_variables, sink = demo_sink\<lparr>warnings := ws\<rparr>\<rparr>"

definition demo_file :: csv_file where
  "demo_file =
     \<lparr>header = [''age'', ''w1'', ''w2'', ''notes''],
      n_records = 3,
      field = (\<lambda>h j. case map_of [(''age'', [Num (61 / 2), Str '' '', Num 41]),
                                   (''w1'', [Num 1, Num 5, Num 5]),
                                   (''w2'', [Num 1, Num 7, Num 5]),
                                   (''notes'', [Str ''ok'', Str ''?'', Str ''ok''])] h of
                        Some c \<Rightarrow> c ! j
                      | None \<Rightarrow> NaN)\<rparr>"

definition text_file :: csv_file where
  "text_file =
     \<lparr>header = [''age'', ''w1'', ''w2''],
      n_records = 1,
      field = (\<lambda>h j. case map_of [(''age'', [Num 41]),
                                   (''w1'', [Str ''yes'']),
                                   (''w2'', [Num 1])] h of
                        Some c \<Rightarrow> c ! j
                      | None \<Rightarrow> NaN)\<rparr>"

definition short_file :: csv_file where
  "short_file = \<lparr>header = [''age'', ''w1''], n_records = 0, field = (\<lambda>h j. NaN)\<rparr>"

definition demo_fs :: filesystem where
  "demo_fs path =
     (if path = ''data.csv'' then Inr demo_file
      else if path = ''text.csv'' then Inr text_file
      else if path = ''short.csv'' then Inr short_file
      else if path = ''data'' then Inl IsADirectoryError
      else Inl FileNotFoundError)"

definition demo_raw :: table where
  "demo_raw = \<lparr>index = [0, 1, 2],
               cols = [(''age'', [Num (61 / 2), NaN, Num 41]),
                       (''w1'', [Num 1, Num 5, Num 5]),
                       (''w2'', [Num 1, Num 7, Num 5])]\<rparr>"

definition demo_derived :: table where
  "demo_derived = \<lparr>index = [0, 1, 2],
               cols = [(''age'', [Num (61 / 2), NaN, Num 41]),
                       (''w1'', [Num 1, Num 5, Num 5]),
                       (''w2'', [Num 1, Num 7, Num 5]),
                       (''w'', [Num 1, NaN, Num 5])]\<rparr>"

definition demo_out :: table where
  "demo_out = \<lparr>index = [0, 2],
     cols =
       [(''age'', [Num 30, Num 41]), (''w1'', [Num 1, NaN]),
        (''w2'', [Num 1, Num 5]), (''w'', [Num 1, Num 5]),
        (''age_ORIGINAL'', [Num (61 / 2), Num 41]),
        (''w1_ORIGINAL'', [Num 1, Num 5]),
        (''w2_ORIGINAL'', [Num 1, Num 5]),
        (''w_ORIGINAL'', [Num 1, Num 5])]\<rparr>"

definition demo_warnings1 :: "(string \<times> string) list" where
  "demo_warnings1 = [(''case 1'', ''Valores contradictorios: w1=5.0 vs. w2=7.0'')]"

definition demo_warnings :: "(string \<times> string) list" where
  "demo_warnings = [(''case 1'', ''Valores contradictorios: w1=5.0 vs. w2=7.0''),
                    (''case 1'', ''age perdida'')]"

definition warnings_table :: "(string \<times> string) list \<Rightarrow> table_result" where
  "warnings_table ws =
     \<lparr>result_id = ''root'', table_id = ''warnings'', title = ''Warnings'',
      headings = [''Caso'', ''''], rows = ws\<rparr>"

text \<open>A registry whose mandatory variable \<open>e\<close> is computed by a post-pass hook.\<close>

definition post_e :: VariableSpec where
  "post_e = (plain TFloat True)\<lparr>computation_post :=
               Some (multibool_to_enum fmt_demo [''a'', ''b''] DEFAULT_NA_VALUES)\<rparr>"

definition post_loader :: DataLoader where
  "post_loader =
     \<lparr>variables = [(''a'', plain TFloat False), (''b'', plain TFloat False), (''e'', post_e)],
      sink = demo_sink\<rparr>"

definition post_raw :: table where
  "post_raw = \<lparr>index = [0, 1], cols = [(''a'', [Num 1, NaN]), (''b'', [Num 0, NaN])]\<rparr>"

definition post_out :: table where
  "post_out = \<lparr>index = [0, 1],
               cols = [(''a'', [Num 1, NaN]), (''b'', [Num 0, NaN]),
                       (''a_ORIGINAL'', [Num 1, NaN]), (''b_ORIGINAL'', [Num 0, NaN]),
                       (''e'', [Str ''a'', NaN])]\<rparr>"

text \<open>A registry with two mandatory variables and a record that misses both.\<close>

definition two_loader :: DataLoader where
  "two_loader =
     \<lparr>variables = [(''u'', plain TFloat True), (''v'', plain TFloat True)], sink = demo_sink\<rparr>"

definition two_raw :: table where
  "two_raw = \<lparr>index = [0, 1], cols = [(''u'', [NaN, Num 1]), (''v'', [NaN, Num 5])]\<rparr>"

definition two_out :: table where
  "two_out = \<lparr>index = [1],
              cols = [(''u'', [Num 1]), (''v'', [Num 5]),
                      (''u_ORIGINAL'', [Num 1]), (''v_ORIGINAL'', [Num 5])]\<rparr>"

text \<open>A registry that declares a variable and, as a variable of its own, its
  \<open>_ORIGINAL\<close> twin.\<close>

definition twin_loader :: DataLoader where
  "twin_loader =
     \<lparr>variables = [(''x'', plain TFloat False), (''x_ORIGINAL'', plain TBool False)],
      sink = demo_sink\<rparr>"

definition twin_raw :: table where
  "twin_raw = \<lparr>index = [0], cols = [(''x'', [Num 5]), (''x_ORIGINAL'', [Num 7])]\<rparr>"

definition twin_out :: table where
  "twin_out = \<lparr>index = [0],
               cols = [(''x'', [Num 5]), (''x_ORIGINAL'', [NaN]),
                       (''x_ORIGINAL_ORIGINAL'', [Num 5])]\<rparr>"


section \<open>Auxiliary facts\<close>

lemma numeric_simps [simp]: "numeric NaN" "numeric (Num x)" "\<not> numeric (Str s)"
  by (simp_all add: numeric_def)

lemma np_isnan_numeric: "numeric v \<Longrightarrow> np_isnan v = Inr (v = NaN)"
  by (cases v) simp_all

lemma is_nan_or_na_numeric:
  "numeric v \<Longrightarrow> is_nan_or_na v na = Inr (missing_or_na v na)"
  by (simp add: is_nan_or_na_def missing_or_na_def np_isnan_numeric)

lemma combine_variables_row_numeric:
  assumes "getitem r a = Inr v1" and "getitem r b = Inr v2"
    and "numeric v1" and "numeric v2"
    and "conflict na v1 v2 \<Longrightarrow> numeric (resolve oc v1 v2)"
  shows "combine_variables_row fmt r a b oc na s =
           Inr (combine_spec oc na v1 v2,
                s\<lparr>warnings := warnings s @
                     combine_warnings_spec fmt a b oc na (case_id_fun s r) v1 v2\<rparr>)"
  using assms
  by (auto simp: combine_variables_row_def is_nan_or_na_numeric combine_spec_def conflict_def
      np_isnan_numeric add_warning_def Let_def combine_warnings_spec_def)

lemma apply_rows_map:
  assumes "\<And>k s. k \<in> set ks \<Longrightarrow>
             f (h k) s = Inr (g k, s\<lparr>warnings := warnings s @ w (case_id_fun s) k\<rparr>)"
  shows "apply_rows f (map h ks) s =
           Inr (map g ks, s\<lparr>warnings := warnings s @ concat (map (w (case_id_fun s)) ks)\<rparr>)"
  using assms
proof (induction ks arbitrary: s)
  case Nil
  then show ?case by simp
next
  case (Cons k ks)
  let ?s1 = "s\<lparr>warnings := warnings s @ w (case_id_fun s) k\<rparr>"
  have step: "f (h k) s = Inr (g k, ?s1)"
    using Cons.prems by simp
  have rest: "apply_rows f (map h ks) ?s1 =
      Inr (map g ks, s\<lparr>warnings := (warnings s @ w (case_id_fun s) k)
                                  @ concat (map (w (case_id_fun s)) ks)\<rparr>)"
    using Cons.IH [of ?s1] Cons.prems by simp
  show ?case by (simp add: step rest)
qed

lemma df_apply_rows:
  assumes "\<And>k s. k < length (index df) \<Longrightarrow>
             f (row_at df k) s = Inr (g k, s\<lparr>warnings := warnings s @ w (case_id_fun s) k\<rparr>)"
  shows "df_apply f df s =
           Inr (zip (index df) (map g [0..<length (index df)]),
                s\<lparr>warnings := warnings s
                     @ concat (map (w (case_id_fun s)) [0..<length (index df)])\<rparr>)"
proof -
  have "apply_rows f (map (row_at df) [0..<length (index df)]) s =
      Inr (map g [0..<length (index df)],
           s\<lparr>warnings := warnings s @ concat (map (w (case_id_fun s)) [0..<length (index df)])\<rparr>)"
    by (rule apply_rows_map) (simp add: assms)
  then show ?thesis by (simp add: df_apply_def iterrows_def)
qed

lemma getcol_Inr: "getcol df a = Inr c \<longleftrightarrow> map_of (cols df) a = Some c"
  by (simp add: getcol_def split: option.splits)

lemma getcol_length: "wf_table df \<Longrightarrow> getcol df a = Inr c \<Longrightarrow> length c = length (index df)"
  by (auto simp: getcol_Inr wf_table_def dest!: map_of_SomeD)

lemma getitem_row_at: "getcol df a = Inr c \<Longrightarrow> getitem (row_at df k) a = Inr (c ! k)"
  by (simp add: getcol_Inr getitem_def row_at_def map_of_map)

lemma row_val_row_at: "getcol df a = Inr c \<Longrightarrow> row_val (row_at df k) a = c ! k"
  by (simp add: getcol_Inr row_val_def row_at_def map_of_map)

lemma map2_upt:
  "length xs = n \<Longrightarrow> length ys = n \<Longrightarrow> map2 f xs ys = map (\<lambda>k. f (xs ! k) (ys ! k)) [0..<n]"
  by (rule nth_equalityI) simp_all

lemma combine_variables_apply:
  assumes wf: "wf_table df"
    and ca: "getcol df a = Inr ca" and cb: "getcol df b = Inr cb"
    and na: "\<forall>v \<in> set ca. numeric v" and nb: "\<forall>v \<in> set cb. numeric v"
    and res: "\<forall>v1 v2. numeric v1 \<longrightarrow> numeric v2 \<longrightarrow> conflict na_values v1 v2
                 \<longrightarrow> numeric (resolve oc v1 v2)"
  shows "combine_variables fmt a b oc na_values df s =
           Inr (zip (index df) (map2 (combine_spec oc na_values) ca cb),
                s\<lparr>warnings := warnings s @
                     concat (map (\<lambda>k. combine_warnings_spec fmt a b oc na_values
                                         (case_id_fun s (row_at df k)) (ca ! k) (cb ! k))
                               [0..<length (index df)])\<rparr>)"
proof -
  have la: "length ca = length (index df)" and lb: "length cb = length (index df)"
    using wf ca cb by (simp_all add: getcol_length)
  have row: "combine_variables_row fmt (row_at df k) a b oc na_values t =
      Inr (combine_spec oc na_values (ca ! k) (cb ! k),
           t\<lparr>warnings := warnings t @
                combine_warnings_spec fmt a b oc na_values (case_id_fun t (row_at df k))
                  (ca ! k) (cb ! k)\<rparr>)"
    if k: "k < length (index df)" for k t
  proof (rule combine_variables_row_numeric)
    show "getitem (row_at df k) a = Inr (ca ! k)" using ca by (rule getitem_row_at)
    show "getitem (row_at df k) b = Inr (cb ! k)" using cb by (rule getitem_row_at)
    show n1: "numeric (ca ! k)" using na k la by simp
    show n2: "numeric (cb ! k)" using nb k lb by simp
    show "numeric (resolve oc (ca ! k) (cb ! k))" if "conflict na_values (ca ! k) (cb ! k)"
      using res that n1 n2 by blast
  qed
  have "combine_variables fmt a b oc na_values df s =
      Inr (zip (index df) (map (\<lambda>k. combine_spec oc na_values (ca ! k) (cb ! k))
                             [0..<length (index df)]),
           s\<lparr>warnings := warnings s @
                concat (map (\<lambda>k. combine_warnings_spec fmt a b oc na_values
                                    (case_id_fun s (row_at df k)) (ca ! k) (cb ! k))
                          [0..<length (index df)])\<rparr>)"
    unfolding combine_variables_def
    by (rule df_apply_rows
        [where w = "\<lambda>cid k. combine_warnings_spec fmt a b oc na_values (cid (row_at df k))
                              (ca ! k) (cb ! k)"]) (rule row)
  then show ?thesis by (simp add: map2_upt [OF la lb])
qed

lemma py_or_conflict:
  assumes "numeric v1" and "numeric v2" and "conflict na v1 v2"
  shows "resolve (Callable py_or) v1 v2 = (if v1 \<noteq> Num 0 then v1 else v2)"
    and "resolve (Callable py_or) v1 v2 \<noteq> NaN"
    and "numeric (resolve (Callable py_or) v1 v2)"
  using assms
  by (cases v1; cases v2; simp add: resolve_def py_or_def conflict_def missing_or_na_def)+

lemma combine_spec_conflict:
  "conflict na v1 v2 \<Longrightarrow> combine_spec oc na v1 v2 = resolve oc v1 v2"
  by (simp add: combine_spec_def conflict_def)



lemma foldl_or: "foldl (\<lambda>x y. x \<or> y) b bs \<longleftrightarrow> b \<or> (\<exists>x \<in> set bs. x)"
  by (induction bs arbitrary: b) auto

lemma foldl_and: "foldl (\<lambda>x y. x \<and> y) b bs \<longleftrightarrow> b \<and> (\<forall>x \<in> set bs. x)"
  by (induction bs arbitrary: b) auto

lemma columns_getcol: "v \<in> set (columns df) \<Longrightarrow> \<exists>c. getcol df v = Inr c"
  by (auto simp: columns_def getcol_Inr weak_map_of_SomeI
      dest!: weak_map_of_SomeI)

lemma logical_loop_spec:
  assumes wf: "wf_table df" and sub: "set vs \<subseteq> set (columns df)"
    and lt: "length t = length (index df)" and lf: "length f = length (index df)"
  shows "logical_loop tc fc df vs t f =
           Inr (map (\<lambda>k. foldl tc (t ! k) (map (\<lambda>v. row_val (row_at df k) v = Num 1) vs))
                  [0..<length (index df)],
                map (\<lambda>k. foldl fc (f ! k) (map (\<lambda>v. row_val (row_at df k) v = Num 0) vs))
                  [0..<length (index df)])"
  using sub lt lf
proof (induction vs arbitrary: t f)
  case Nil
  then show ?case using map_nth [of t] map_nth [of f] by simp
next
  case (Cons v vs)
  from Cons.prems(1) obtain c where c: "getcol df v = Inr c"
    using columns_getcol [of v df] by auto
  have lc: "length c = length (index df)" using wf c by (rule getcol_length)
  let ?t = "map2 tc t (map (\<lambda>x. x = Num 1) c)"
  let ?f = "map2 fc f (map (\<lambda>x. x = Num 0) c)"
  have lens: "length ?t = length (index df)" "length ?f = length (index df)"
    using Cons.prems lc by simp_all
  have IH: "logical_loop tc fc df vs ?t ?f =
      Inr (map (\<lambda>k. foldl tc (?t ! k) (map (\<lambda>v. row_val (row_at df k) v = Num 1) vs))
             [0..<length (index df)],
           map (\<lambda>k. foldl fc (?f ! k) (map (\<lambda>v. row_val (row_at df k) v = Num 0) vs))
             [0..<length (index df)])"
    using Cons.IH [OF _ lens] Cons.prems(1) by simp
  have nt: "?t ! k = tc (t ! k) (row_val (row_at df k) v = Num 1)"
    and nf: "?f ! k = fc (f ! k) (row_val (row_at df k) v = Num 0)"
    if "k < length (index df)" for k
    using that Cons.prems lc by (simp_all add: row_val_row_at [OF c])
  show ?case
    by (simp add: c IH nt nf cong: map_cong)
qed

lemma map2_map_upt:
  "map2 f (map g [0..<n]) (map h [0..<n]) = map (\<lambda>k. f (g k) (h k)) [0..<n]"
  by (rule nth_equalityI) simp_all

lemma logical_res_spec:
  assumes wf: "wf_table df" and sub: "set vs \<subseteq> set (columns df)" and ne: "vs \<noteq> []"
  shows "logical_res tc fc vs df s =
           Inr (zip (index df)
                  (map (\<lambda>r. let t = foldl tc (row_val r (hd vs) = Num 1)
                                       (map (\<lambda>v. row_val r v = Num 1) vs);
                               f = foldl fc (row_val r (hd vs) = Num 0)
                                       (map (\<lambda>v. row_val r v = Num 0) vs)
                           in if f then Num 0 else if t then Num 1 else NaN)
                     (iterrows df)), s)"
proof -
  from ne sub have "hd vs \<in> set (columns df)" by (cases vs) auto
  then obtain c0 where c0: "getcol df (hd vs) = Inr c0"
    using columns_getcol by blast
  have l0: "length c0 = length (index df)" using wf c0 by (rule getcol_length)
  have loop: "logical_loop tc fc df vs (map (\<lambda>x. x = Num 1) c0) (map (\<lambda>x. x = Num 0) c0) =
      Inr (map (\<lambda>k. foldl tc (row_val (row_at df k) (hd vs) = Num 1)
                        (map (\<lambda>v. row_val (row_at df k) v = Num 1) vs)) [0..<length (index df)],
           map (\<lambda>k. foldl fc (row_val (row_at df k) (hd vs) = Num 0)
                        (map (\<lambda>v. row_val (row_at df k) v = Num 0) vs)) [0..<length (index df)])"
    using logical_loop_spec [OF wf sub, of "map (\<lambda>x. x = Num 1) c0" "map (\<lambda>x. x = Num 0) c0" tc fc]
    by (simp add: l0 row_val_row_at [OF c0] cong: map_cong)
  show ?thesis
    unfolding logical_res_def
    by (simp add: c0 loop iterrows_def map2_map_upt Let_def o_def)
qed

section \<open>combine_variables\<close>




section \<open>combine_variables_bool\<close>

lemma upt3: "[0..<3] = [0, 1, 2]"
  by (simp add: upt_rec)

text \<open>
  Claim C10. On columns of numbers and missing values \<open>combine_variables_bool\<close> returns
  a column and leaves the warning log as it was: it never records a conflict warning. In
  a row where the conflict branch is taken (both values present, not in \<open>na_values\<close>,
  and unequal) the result is \<open>v1\<close> if \<open>v1\<close> is nonzero and \<open>v2\<close> otherwise, and it is
  not missing.
\<close>

theorem combine_variables_bool_column:
  assumes wf: "wf_table df"
    and ca: "getcol df a = Inr ca" and cb: "getcol df b = Inr cb"
    and na: "\<forall>v \<in> set ca. numeric v" and nb: "\<forall>v \<in> set cb. numeric v"
  shows "\<exists>vs. combine_variables_bool fmt a b na_values df s = Inr (zip (index df) vs, s)
           \<and> length vs = length (index df)
           \<and> (\<forall>k < length (index df). conflict na_values (ca ! k) (cb ! k) \<longrightarrow>
                 vs ! k = (if ca ! k \<noteq> Num 0 then ca ! k else cb ! k) \<and> vs ! k \<noteq> NaN)"
proof -
  have la: "length ca = length (index df)" and lb: "length cb = length (index df)"
    using wf ca cb by (simp_all add: getcol_length)
  have num: "numeric (ca ! k)" "numeric (cb ! k)" if "k < length (index df)" for k
    using that na nb la lb by simp_all
  have res: "\<forall>v1 v2. numeric v1 \<longrightarrow> numeric v2 \<longrightarrow> conflict na_values v1 v2
      \<longrightarrow> numeric (resolve (Callable py_or) v1 v2)"
    using py_or_conflict(3) by blast
  have nowarn: "combine_warnings_spec fmt a b (Callable py_or) na_values cid (ca ! k) (cb ! k) = []"
    if "k < length (index df)" for k cid
    using py_or_conflict(2) [OF num [OF that]] by (simp add: combine_warnings_spec_def)
  have "concat (map (\<lambda>k. combine_warnings_spec fmt a b (Callable py_or) na_values
                          (case_id_fun s (row_at df k)) (ca ! k) (cb ! k))
                  [0..<length (index df)]) = []"
    by (simp add: nowarn)
  then have eq: "combine_variables_bool fmt a b na_values df s =
      Inr (zip (index df) (map2 (combine_spec (Callable py_or) na_values) ca cb), s)"
    unfolding combine_variables_bool_def
    by (simp add: combine_variables_apply [OF wf ca cb na nb res])
  have "\<forall>k < length (index df). conflict na_values (ca ! k) (cb ! k) \<longrightarrow>
      map2 (combine_spec (Callable py_or) na_values) ca cb ! k
        = (if ca ! k \<noteq> Num 0 then ca ! k else cb ! k)
      \<and> map2 (combine_spec (Callable py_or) na_values) ca cb ! k \<noteq> NaN"
    using py_or_conflict(1,2) [OF num] by (simp add: la lb combine_spec_conflict)
  with eq show ?thesis
    using la lb by (intro exI [of _ "map2 (combine_spec (Callable py_or) na_values) ca cb"]) force
qed

text \<open>1 and 0 give 1 and 0 and 1 give 1, with no warning.\<close>

theorem combine_variables_bool_column_witness:
  "\<exists>vs. combine_variables_bool fmt_demo ''A'' ''C'' DEFAULT_NA_VALUES demo_bool demo_sink =
           Inr (zip [0, 1, 2] vs, demo_sink)
        \<and> length vs = 3 \<and> vs ! 0 = Num 1 \<and> vs ! 1 = Num 1 \<and> vs ! 2 = Num 1"
proof -
  have wf: "wf_table demo_bool"
    by (simp add: wf_table_def demo_bool_def columns_def)
  have ca: "getcol demo_bool ''A'' = Inr [Num 1, Num 0, Num 0]"
    and cb: "getcol demo_bool ''C'' = Inr [Num 0, Num 1, Num 1]"
    by (simp_all add: getcol_def demo_bool_def)
  have na: "\<forall>v \<in> set [Num 1, Num 0, Num 0]. numeric v"
    and nb: "\<forall>v \<in> set [Num 0, Num 1, Num 1]. numeric v"
    by simp_all
  have ix: "index demo_bool = [0, 1, 2]" by (simp add: demo_bool_def)
  obtain vs where eq: "combine_variables_bool fmt_demo ''A'' ''C'' DEFAULT_NA_VALUES demo_bool demo_sink
        = Inr (zip (index demo_bool) vs, demo_sink)"
    and len: "length vs = length (index demo_bool)"
    and cf: "\<forall>k < length (index demo_bool).
        conflict DEFAULT_NA_VALUES ([Num 1, Num 0, Num 0] ! k) ([Num 0, Num 1, Num 1] ! k) \<longrightarrow>
        vs ! k = (if [Num 1, Num 0, Num 0] ! k \<noteq> Num 0 then [Num 1, Num 0, Num 0] ! k
                  else [Num 0, Num 1, Num 1] ! k) \<and> vs ! k \<noteq> NaN"
    using combine_variables_bool_column [OF wf ca cb na nb, of fmt_demo DEFAULT_NA_VALUES demo_sink]
    by blast
  have c: "conflict DEFAULT_NA_VALUES (Num 1) (Num 0)" "conflict DEFAULT_NA_VALUES (Num 0) (Num 1)"
    by (simp_all add: conflict_def missing_or_na_def DEFAULT_NA_VALUES_def)
  have "vs ! 0 = Num 1" using cf [rule_format, of 0] c by (simp add: ix)
  moreover have "vs ! 1 = Num 1" using cf [rule_format, of 1] c by (simp add: ix)
  moreover have "vs ! 2 = Num 1" using cf [rule_format, of 2] c by (simp add: ix)
  ultimately show ?thesis using eq len by (auto simp: ix)
qed

section \<open>logical_or and logical_and\<close>

text \<open>
  Claim C3. For at least two listed columns of a table, every row of the column
  \<open>logical_or\<close> produces is 1.0 when some listed variable equals 1.0, 0.0 when all of
  them equal 0.0, and missing otherwise; every row of the column \<open>logical_and\<close>
  produces is 1.0 when all listed variables equal 1.0, 0.0 when some of them equals 0.0,
  and missing otherwise. Neither records a warning. (This holds for any cells, so in
  particular for cells in 1.0, 0.0, missing.)
\<close>

theorem logical_or_and_rows:
  assumes len: "2 \<le> length varnames" and wf: "wf_table df"
    and sub: "set varnames \<subseteq> set (columns df)"
  shows "\<exists>h_or h_and.
           logical_or varnames = Inr h_or \<and> logical_and varnames = Inr h_and
           \<and> h_or df s =
               Inr (zip (index df)
                      (map (\<lambda>r. or_spec (map (row_val r) varnames)) (iterrows df)), s)
           \<and> h_and df s =
               Inr (zip (index df)
                      (map (\<lambda>r. and_spec (map (row_val r) varnames)) (iterrows df)), s)"
proof -
  from len have ne: "varnames \<noteq> []" by auto
  then have hd: "hd varnames \<in> set varnames" by simp
  have or_row: "(let t = foldl (\<lambda>x y. x \<or> y) (row_val r (hd varnames) = Num 1)
                        (map (\<lambda>v. row_val r v = Num 1) varnames);
                    f = foldl (\<lambda>x y. x \<and> y) (row_val r (hd varnames) = Num 0)
                        (map (\<lambda>v. row_val r v = Num 0) varnames)
                in if f then Num 0 else if t then Num 1 else NaN)
              = or_spec (map (row_val r) varnames)" for r
    using hd by (auto simp: foldl_or foldl_and or_spec_def Let_def intro: rev_image_eqI)
  have and_row: "(let t = foldl (\<lambda>x y. x \<and> y) (row_val r (hd varnames) = Num 1)
                        (map (\<lambda>v. row_val r v = Num 1) varnames);
                    f = foldl (\<lambda>x y. x \<or> y) (row_val r (hd varnames) = Num 0)
                        (map (\<lambda>v. row_val r v = Num 0) varnames)
                in if f then Num 0 else if t then Num 1 else NaN)
              = and_spec (map (row_val r) varnames)" for r
    using hd by (auto simp: foldl_or foldl_and and_spec_def Let_def intro: rev_image_eqI)
  have "logical_or varnames = Inr (logical_res (\<lambda>x y. x \<or> y) (\<lambda>x y. x \<and> y) varnames)"
    and "logical_and varnames = Inr (logical_res (\<lambda>x y. x \<and> y) (\<lambda>x y. x \<or> y) varnames)"
    using len by (simp_all add: logical_or_def logical_and_def logical_op_def)
  moreover have "logical_res (\<lambda>x y. x \<or> y) (\<lambda>x y. x \<and> y) varnames df s =
      Inr (zip (index df) (map (\<lambda>r. or_spec (map (row_val r) varnames)) (iterrows df)), s)"
    by (simp only: logical_res_spec [OF wf sub ne] or_row)
  moreover have "logical_res (\<lambda>x y. x \<and> y) (\<lambda>x y. x \<or> y) varnames df s =
      Inr (zip (index df) (map (\<lambda>r. and_spec (map (row_val r) varnames)) (iterrows df)), s)"
    by (simp only: logical_res_spec [OF wf sub ne] and_row)
  ultimately show ?thesis by blast
qed

text \<open>
  The examples of the specification: \<open>logical_or\<close> on (1.0, missing) gives 1.0, on
  (0.0, 0.0) gives 0.0, on (0.0, missing) gives missing.
\<close>

theorem logical_or_and_rows_witness:
  "\<exists>h_or h_and.
     logical_or [''A'', ''B''] = Inr h_or \<and> logical_and [''A'', ''B''] = Inr h_and
     \<and> h_or demo_bool demo_sink = Inr ([(0, Num 1), (1, Num 0), (2, NaN)], demo_sink)
     \<and> h_and demo_bool demo_sink = Inr ([(0, NaN), (1, Num 0), (2, Num 0)], demo_sink)"
proof -
  have wf: "wf_table demo_bool"
    by (simp add: wf_table_def demo_bool_def columns_def)
  have s1: "set [''A'', ''B''] \<subseteq> set (columns demo_bool)"
    and s2: "set [''A'', ''C''] \<subseteq> set (columns demo_bool)"
    by (simp_all add: demo_bool_def columns_def)
  have l: "2 \<le> length [''A'', ''B'']" "2 \<le> length [''A'', ''C'']" by simp_all
  have rows: "iterrows demo_bool =
      [\<lparr>label = 0, cells = [(''A'', Num 1), (''B'', NaN), (''C'', Num 0)]\<rparr>,
       \<lparr>label = 1, cells = [(''A'', Num 0), (''B'', Num 0), (''C'', Num 1)]\<rparr>,
       \<lparr>label = 2, cells = [(''A'', Num 0), (''B'', NaN), (''C'', Num 1)]\<rparr>]"
    by (simp add: iterrows_def row_at_def demo_bool_def upt3)
  have ix: "index demo_bool = [0, 1, 2]" by (simp add: demo_bool_def)
  obtain h1 where h1: "logical_or [''A'', ''B''] = Inr h1"
    and r1: "h1 demo_bool demo_sink =
      Inr (zip (index demo_bool)
             (map (\<lambda>r. or_spec (map (row_val r) [''A'', ''B''])) (iterrows demo_bool)), demo_sink)"
    using logical_or_and_rows [OF l(1) wf s1, of demo_sink] by blast
  obtain h2 where h2: "logical_and [''A'', ''B''] = Inr h2"
    and r2: "h2 demo_bool demo_sink =
      Inr (zip (index demo_bool)
             (map (\<lambda>r. and_spec (map (row_val r) [''A'', ''B''])) (iterrows demo_bool)), demo_sink)"
    using logical_or_and_rows [OF l(1) wf s1, of demo_sink] by blast
  have "h1 demo_bool demo_sink = Inr ([(0, Num 1), (1, Num 0), (2, NaN)], demo_sink)"
    unfolding r1 rows ix by (simp add: or_spec_def row_val_def)
  moreover have "h2 demo_bool demo_sink = Inr ([(0, NaN), (1, Num 0), (2, Num 0)], demo_sink)"
    unfolding r2 rows ix by (simp add: and_spec_def row_val_def)
  ultimately show ?thesis using h1 h2 by blast
qed

section \<open>multibool_to_enum\<close>

text \<open>
  When \<open>na_values\<close> holds no missing value, \<open>_multibool_to_enum_row\<close> does what the
  specification says: missing and no warning when every listed cell is missing or in
  \<open>na_values\<close>; the name of the variable when exactly one cell equals 1.0; otherwise
  missing and one warning, which lists every variable with its value.
\<close>

lemma count_disjoint:
  assumes "\<forall>x \<in> set xs. \<not> (P x \<and> Q x)"
  shows "length (filter P xs) + length (filter Q xs) = length (filter (\<lambda>x. P x \<or> Q x) xs)"
  using assms by (induction xs) auto

lemma length_filter_all: "length (filter R xs) = length xs \<longleftrightarrow> (\<forall>x \<in> set xs. R x)"
proof
  assume "length (filter R xs) = length xs"
  then show "\<forall>x \<in> set xs. R x"
    using length_filter_less [of _ xs R] by force
next
  assume "\<forall>x \<in> set xs. R x"
  then show "length (filter R xs) = length xs" by simp
qed

lemma getitems_spec:
  "getitems r vs = Inr frag \<Longrightarrow> frag = map (\<lambda>n. (n, row_val r n)) vs"
proof (induction vs arbitrary: frag)
  case Nil
  then show ?case by simp
next
  case (Cons n ns)
  then show ?case
    by (auto simp: getitem_def row_val_def split: option.splits sum.splits)
qed

lemma getitems_present:
  "set vs \<subseteq> fst ` set (cells r) \<Longrightarrow> \<exists>frag. getitems r vs = Inr frag"
proof (induction vs)
  case Nil
  then show ?case by simp
next
  case (Cons n ns)
  then obtain frag where "getitems r ns = Inr frag" by auto
  moreover from Cons.prems obtain v where "map_of (cells r) n = Some v"
    by (auto dest!: weak_map_of_SomeI)
  ultimately show ?case by (simp add: getitem_def)
qed

lemma multibool_to_enum_row_cases:
  assumes frag: "getitems r vars = Inr frag" and na: "NaN \<notin> set na_values"
  shows "multibool_to_enum_row fmt r vars na_values s =
           (if \<forall>v \<in> set (map snd frag). missing_or_na v na_values then Inr (NaN, s)
            else if length (filter (\<lambda>(n, v). v = Num 1) frag) = 1
            then Inr (Str (fst (hd (filter (\<lambda>(n, v). v = Num 1) frag))), s)
            else Inr (NaN, add_warning s (CaseRow r) (multibool_text fmt frag)))"
proof -
  have len: "length vars = length (map snd frag)"
    using getitems_spec [OF frag] by simp
  have "\<forall>x \<in> set (map snd frag). \<not> (isna x \<and> x \<in> set na_values)"
    using na by (auto simp: isna_def)
  then have "length (filter isna (map snd frag))
        + length (filter (\<lambda>v. v \<in> set na_values) (map snd frag))
      = length (filter (\<lambda>x. isna x \<or> x \<in> set na_values) (map snd frag))"
    by (rule count_disjoint)
  then have "(length (filter isna (map snd frag))
        + length (filter (\<lambda>v. v \<in> set na_values) (map snd frag)) = length vars)
      \<longleftrightarrow> (\<forall>v \<in> set (map snd frag). missing_or_na v na_values)"
    unfolding len by (simp only: length_filter_all missing_or_na_def isna_def)
  then show ?thesis
    by (simp add: multibool_to_enum_row_def frag Let_def)
qed

lemma value_list_distinct:
  "distinct (map fst frag) \<Longrightarrow>
   value_list fmt frag = join '', '' (map (\<lambda>(n, v). n @ ''='' @ fmt v) frag)"
proof -
  assume d: "distinct (map fst frag)"
  have "map (\<lambda>varname. varname @ ''='' @
               (case map_of frag varname of Some v \<Rightarrow> fmt v | None \<Rightarrow> [])) (map fst frag)
      = map (\<lambda>(n, v). n @ ''='' @ fmt v) frag"
    using d by (auto simp: map_of_eq_Some_iff [OF d] split: option.splits dest: eq_key_imp_eq_value)
  then show ?thesis unfolding value_list_def by (rule arg_cong)
qed

text \<open>The examples of the specification.\<close>

lemma multibool_to_enum_row_examples:
  "multibool_to_enum_row fmt_demo \<lparr>label = 0, cells = [(''A'', Num 1), (''B'', Num 0), (''C'', Num 0)]\<rparr>
      [''A'', ''B'', ''C''] DEFAULT_NA_VALUES demo_sink = Inr (Str ''A'', demo_sink)"
  "multibool_to_enum_row fmt_demo \<lparr>label = 1, cells = [(''A'', Num 1), (''B'', Num 1), (''C'', Num 0)]\<rparr>
      [''A'', ''B'', ''C''] DEFAULT_NA_VALUES demo_sink =
     Inr (NaN, demo_sink\<lparr>warnings :=
            [(''case 1'', ''Multi-bool a enum - valores contradictorios: A=1.0, B=1.0, C=0.0'')]\<rparr>)"
  "multibool_to_enum_row fmt_demo \<lparr>label = 2, cells = [(''A'', NaN), (''B'', NaN), (''C'', NaN)]\<rparr>
      [''A'', ''B'', ''C''] DEFAULT_NA_VALUES demo_sink = Inr (NaN, demo_sink)"
  "multibool_to_enum_row fmt_demo \<lparr>label = 0, cells = [(''A'', NaN), (''B'', Num 1)]\<rparr>
      [''A'', ''B''] DEFAULT_NA_VALUES demo_sink = Inr (Str ''B'', demo_sink)"
  by (simp_all add: multibool_to_enum_row_def getitem_def isna_def DEFAULT_NA_VALUES_def
      add_warning_def demo_sink_def multibool_text_def value_list_def fmt_demo_def)

text \<open>
  Claim C4. The claim asks for the name of the unique variable equal to 1.0 whenever not
  all listed variables are missing or in \<open>na_values\<close>. The function tests "all missing
  or in \<open>na_values\<close>" by adding the number of missing cells to the number of cells found
  in \<open>na_values\<close>, and \<open>isin\<close> finds a missing cell in a list that holds NaN: such a cell
  is counted twice. With \<open>na_values = [NaN]\<close> the row A = missing, B = 1.0 reaches the
  count 2 of 2 and the function returns missing with no warning, where the claim (and
  \<open>_combine_variables_row\<close>, which tests \<open>isnan(v) or v in na_values\<close> cell by cell)
  gives B.
\<close>

theorem multibool_to_enum_row_nan_marker:
  "multibool_to_enum_row fmt \<lparr>label = 0, cells = [(''A'', NaN), (''B'', Num 1)]\<rparr>
      [''A'', ''B''] [NaN] s = Inr (NaN, s)"
  by (simp add: multibool_to_enum_row_def getitem_def isna_def)

section \<open>Facts about tables\<close>

subsection \<open>Masks\<close>

lemma keep_mask_map_map: "keep_mask (map p zs) (map f zs) = map f (filter p zs)"
  by (induction zs) simp_all

lemma keep_mask_positions:
  assumes "length xs = length c"
  shows "keep_mask (map P c) xs = map (\<lambda>k. xs ! k) (filter (\<lambda>k. P (c ! k)) [0..<length c])"
proof -
  have "map P c = map (\<lambda>k. P (c ! k)) [0..<length c]"
    by (rule nth_equalityI) simp_all
  moreover have "xs = map (\<lambda>k. xs ! k) [0..<length c]"
    using map_nth [of xs] assms by simp
  ultimately have "keep_mask (map P c) xs
      = keep_mask (map (\<lambda>k. P (c ! k)) [0..<length c]) (map (\<lambda>k. xs ! k) [0..<length c])"
    by simp
  then show ?thesis by (simp only: keep_mask_map_map)
qed

lemma keep_mask_self: "keep_mask (map P c) c = filter P c"
  using keep_mask_map_map [of P c "\<lambda>x. x"] by simp

lemma keep_mask_all:
  assumes "length xs = length c" and "\<forall>v \<in> set c. P v"
  shows "keep_mask (map P c) xs = xs"
proof -
  have "filter (\<lambda>k. P (c ! k)) [0..<length c] = [0..<length c]"
    using assms(2) by (simp add: filter_id_conv)
  moreover have "map (\<lambda>k. xs ! k) [0..<length xs] = xs" by (rule map_nth)
  ultimately show ?thesis
    using assms(1) by (simp add: keep_mask_positions)
qed

lemma keep_mask_none:
  assumes "length xs = length c" and "keep_mask (map P c) xs = []"
  shows "\<forall>v \<in> set c. \<not> P v"
proof -
  have "filter (\<lambda>k. P (c ! k)) [0..<length c] = []"
    using assms by (simp add: keep_mask_positions)
  then have "\<forall>k < length c. \<not> P (c ! k)"
    by (simp add: filter_empty_conv)
  then show ?thesis by (auto simp: in_set_conv_nth)
qed

subsection \<open>Columns\<close>

lemma getcol_setcol:
  "getcol (setcol df n c) x = (if x = n then Inr c else getcol df x)"
  by (simp add: getcol_def setcol_def update_conv')

lemma index_setcol [simp]: "index (setcol df n c) = index df"
  by (simp add: setcol_def)

lemma columns_setcol:
  "columns (setcol df n c) = (if n \<in> set (columns df) then columns df else columns df @ [n])"
  by (simp add: columns_def setcol_def update_keys)

lemma wf_setcol:
  assumes "wf_table df" and "length c = length (index df)"
  shows "wf_table (setcol df n c)"
proof -
  have "distinct (columns (setcol df n c))"
    using assms(1) by (simp add: columns_def setcol_def wf_table_def distinct_update)
  moreover have "length (snd p) = length (index df)" if "p \<in> set (cols (setcol df n c))" for p
  proof -
    obtain x col where p: "p = (x, col)" by (cases p)
    have d: "distinct (map fst (cols (setcol df n c)))"
      using assms(1) by (simp add: columns_def setcol_def wf_table_def distinct_update)
    from that p d have "map_of (cols (setcol df n c)) x = Some col" by simp
    then have "getcol (setcol df n c) x = Inr col" by (simp add: getcol_Inr)
    then have "(x = n \<and> col = c) \<or> getcol df x = Inr col"
      by (auto simp: getcol_setcol split: if_splits)
    then show ?thesis
      using assms getcol_length p by auto
  qed
  ultimately show ?thesis by (simp add: wf_table_def)
qed

lemma cell_setcol_other: "x \<noteq> n \<Longrightarrow> cell (setcol df n c) x i = cell df x i"
  by (simp add: cell_def setcol_def update_conv' split: option.splits)

lemma cell_getcol: "getcol df x = Inr c \<Longrightarrow> cell df x i = map_of (zip (index df) c) i"
  by (simp add: cell_def getcol_Inr)

lemma cell_setcol_same: "cell (setcol df n c) n i = map_of (zip (index df) c) i"
  by (simp add: cell_def setcol_def update_conv')

lemma cell_eq_getcol:
  assumes "getcol df x = Inr c" and "getcol df' y = Inr c" and "index df' = index df"
  shows "cell df' y i = cell df x i"
  using assms by (simp add: cell_getcol)

subsection \<open>Selecting rows\<close>

lemma index_select_rows [simp]: "index (select_rows df m) = keep_mask m (index df)"
  by (simp add: select_rows_def)

lemma columns_select_rows [simp]: "columns (select_rows df m) = columns df"
  by (simp add: select_rows_def columns_def o_def split_def)

lemma getcol_select_rows:
  "getcol (select_rows df m) x =
     (case getcol df x of Inl e \<Rightarrow> Inl e | Inr c \<Rightarrow> Inr (keep_mask m c))"
  by (simp add: getcol_def select_rows_def map_of_map split: option.splits)

lemma wf_select_rows:
  assumes wf: "wf_table df" and len: "length c = length (index df)"
  shows "wf_table (select_rows df (map P c))"
proof -
  have "length (keep_mask (map P c) col) = length (keep_mask (map P c) (index df))"
    if "length col = length (index df)" for col :: "val list"
    using that len by (simp add: keep_mask_positions)
  then show ?thesis
    using wf by (auto simp: wf_table_def select_rows_def columns_def o_def split_def)
qed

lemma distinct_keep_mask:
  assumes "distinct xs" and "length xs = length c"
  shows "distinct (keep_mask (map P c) xs)"
proof -
  have "keep_mask (map P c) xs = map (\<lambda>k. xs ! k) (filter (\<lambda>k. P (c ! k)) [0..<length c])"
    using assms(2) by (rule keep_mask_positions)
  moreover have "distinct (map (\<lambda>k. xs ! k) (filter (\<lambda>k. P (c ! k)) [0..<length c]))"
    using assms by (auto simp: distinct_map inj_on_def nth_eq_iff_index_eq)
  ultimately show ?thesis by simp
qed

lemma set_keep_mask: "length xs = length c \<Longrightarrow> set (keep_mask (map P c) xs) \<subseteq> set xs"
  by (auto simp: keep_mask_positions)

lemma cell_select_rows:
  assumes wf: "wf_table df" and d: "distinct (index df)"
    and len: "length c = length (index df)"
    and i: "i \<in> set (index (select_rows df (map P c)))"
  shows "cell (select_rows df (map P c)) x i = cell df x i"
proof (cases "getcol df x")
  case (Inl e)
  then show ?thesis
    by (simp add: cell_def getcol_def select_rows_def map_of_map split: option.splits)
next
  case (Inr col)
  let ?ks = "filter (\<lambda>k. P (c ! k)) [0..<length c]"
  have lc: "length col = length (index df)" using wf Inr by (rule getcol_length)
  have ix: "keep_mask (map P c) (index df) = map (\<lambda>k. index df ! k) ?ks"
    using len by (simp add: keep_mask_positions)
  have cx: "keep_mask (map P c) col = map (\<lambda>k. col ! k) ?ks"
    using len lc by (simp add: keep_mask_positions)
  from i obtain k where k: "k \<in> set ?ks" and ik: "i = index df ! k"
    using ix by auto
  have kn: "k < length (index df)" using k len by simp
  have dk: "distinct (map (\<lambda>k. index df ! k) ?ks)"
    using d len by (auto simp: distinct_map inj_on_def nth_eq_iff_index_eq)
  have "map_of (zip (map (\<lambda>k. index df ! k) ?ks) (map (\<lambda>k. col ! k) ?ks)) i = Some (col ! k)"
  proof -
    have z: "zip (map (\<lambda>k. index df ! k) ?ks) (map (\<lambda>k. col ! k) ?ks)
        = map (\<lambda>k. (index df ! k, col ! k)) ?ks"
      by (simp add: zip_map_map zip_same_conv_map)
    have "(i, col ! k) \<in> set (map (\<lambda>k. (index df ! k, col ! k)) ?ks)"
      using k ik by auto
    moreover have "distinct (map fst (map (\<lambda>k. (index df ! k, col ! k)) ?ks))"
      using dk by (simp add: o_def)
    ultimately show ?thesis unfolding z by simp
  qed
  moreover have "map_of (zip (index df) col) i = Some (col ! k)"
    unfolding ik using lc d kn by (intro map_of_zip_nth) simp_all
  ultimately show ?thesis
    using Inr by (simp add: cell_def getcol_select_rows getcol_Inr ix cx
        select_rows_def map_of_map split: option.splits)
qed

lemma iterrows_select_rows:
  assumes wf: "wf_table df" and len: "length c = length (index df)"
    and c: "getcol df V = Inr c"
  shows "iterrows (select_rows df (map P c)) = filter (\<lambda>r. P (row_val r V)) (iterrows df)"
proof -
  let ?ks = "filter (\<lambda>k. P (c ! k)) [0..<length c]"
  have ix: "keep_mask (map P c) (index df) = map (\<lambda>k. index df ! k) ?ks"
    using len by (simp add: keep_mask_positions)
  have cx: "keep_mask (map P c) col = map (\<lambda>k. col ! k) ?ks"
    if "(n, col) \<in> set (cols df)" for n col
    using that wf len by (auto simp: keep_mask_positions wf_table_def)
  have row: "row_at (select_rows df (map P c)) j = row_at df (?ks ! j)" if "j < length ?ks" for j
    using that cx by (auto simp: row_at_def select_rows_def ix)
  have "iterrows (select_rows df (map P c)) = map (\<lambda>j. row_at df (?ks ! j)) [0..<length ?ks]"
    using row by (simp add: iterrows_def ix)
  also have "\<dots> = map (row_at df) ?ks"
    by (rule nth_equalityI) simp_all
  also have "\<dots> = filter (\<lambda>r. P (row_val r V)) (map (row_at df) [0..<length c])"
    by (simp add: filter_map o_def row_val_row_at [OF c])
  finally show ?thesis by (simp add: iterrows_def len)
qed

lemma evolves_refl: "wf_table t \<Longrightarrow> distinct (index t) \<Longrightarrow> evolves W t t"
  by (simp add: evolves_def)

lemma evolves_trans:
  assumes "evolves W1 t t'" and "evolves W2 t' t''"
  shows "evolves (W1 \<union> W2) t t''"
  unfolding evolves_def
proof (intro conjI allI impI)
  show "wf_table t''" "distinct (index t'')" using assms(2) by (simp_all add: evolves_def)
  show "set (index t'') \<subseteq> set (index t)" using assms by (auto simp: evolves_def)
  show "set (columns t) \<subseteq> set (columns t'')" using assms by (auto simp: evolves_def)
next
  fix x assume x: "x \<notin> W1 \<union> W2"
  show "\<forall>i \<in> set (index t''). cell t'' x i = cell t x i"
  proof
    fix i assume i: "i \<in> set (index t'')"
    then have "i \<in> set (index t')" using assms(2) by (auto simp: evolves_def)
    then show "cell t'' x i = cell t x i"
      using assms x i by (simp add: evolves_def)
  qed
next
  fix x c assume x: "x \<notin> W1 \<union> W2" and c: "getcol t x = Inr c"
  then obtain c' where c': "getcol t' x = Inr c'" "set c' \<subseteq> set c"
    using assms(1) unfolding evolves_def by blast
  then obtain c'' where "getcol t'' x = Inr c''" "set c'' \<subseteq> set c'"
    using assms(2) x unfolding evolves_def by blast
  with c' show "\<exists>c'. getcol t'' x = Inr c' \<and> set c' \<subseteq> set c" by blast
qed

lemma evolves_mono: "evolves W t t' \<Longrightarrow> W \<subseteq> W' \<Longrightarrow> evolves W' t t'"
  unfolding evolves_def by blast

lemma evolves_setcol:
  assumes "wf_table t" and "distinct (index t)" and "length c = length (index t)"
  shows "evolves {n} t (setcol t n c)"
  using assms
  by (auto simp: evolves_def wf_setcol columns_setcol cell_setcol_other getcol_setcol)

lemma evolves_select_rows:
  assumes wf: "wf_table t" and d: "distinct (index t)" and len: "length c = length (index t)"
  shows "evolves W t (select_rows t (map P c))"
  unfolding evolves_def
proof (intro conjI allI impI ballI)
  show "wf_table (select_rows t (map P c))" using wf len by (rule wf_select_rows)
  show "distinct (index (select_rows t (map P c)))"
    using d len by (simp add: distinct_keep_mask)
  show "set (index (select_rows t (map P c))) \<subseteq> set (index t)"
    using len set_keep_mask [of "index t" c P] by simp
  show "set (columns t) \<subseteq> set (columns (select_rows t (map P c)))" by simp
next
  fix x i assume "i \<in> set (index (select_rows t (map P c)))"
  then show "cell (select_rows t (map P c)) x i = cell t x i"
    using wf d len by (rule cell_select_rows [rotated 3])
next
  fix x cx assume cx: "getcol t x = Inr cx"
  have "length cx = length c" using wf cx len by (simp add: getcol_length)
  then have "set (keep_mask (map P c) cx) \<subseteq> set cx" by (rule set_keep_mask)
  then show "\<exists>c'. getcol (select_rows t (map P c)) x = Inr c' \<and> set c' \<subseteq> set cx"
    by (simp add: getcol_select_rows cx)
qed

subsection \<open>Dropping the rows with a missing value\<close>

lemma foldl_add_warning:
  "foldl (\<lambda>s r. add_warning s (CaseRow r) t) s rs =
     s\<lparr>warnings := warnings s @ map (\<lambda>r. (case_id_fun s r, t)) rs\<rparr>"
  by (induction rs arbitrary: s) (simp_all add: add_warning_def)

lemma select_rows_all:
  assumes "wf_table t" and "length c = length (index t)" and "\<forall>v \<in> set c. P v"
  shows "select_rows t (map P c) = t"
proof -
  have "keep_mask (map P c) (index t) = index t"
    using assms by (simp add: keep_mask_all)
  moreover have "map (\<lambda>(n, col). (n, keep_mask (map P c) col)) (cols t) = cols t"
    using assms by (intro map_idI) (auto simp: wf_table_def keep_mask_all)
  ultimately show ?thesis by (simp add: select_rows_def)
qed

lemma drop_na_spec:
  assumes wf: "wf_table df" and c: "getcol df varname = Inr c"
  shows "drop_na self df varname =
           Inr (select_rows df (map (\<lambda>v. \<not> isna v) c),
                self\<lparr>sink := (sink self)\<lparr>warnings := warnings (sink self) @
                   map (\<lambda>r. (case_id_fun (sink self) r, perdida varname))
                     (filter (\<lambda>r. isna (row_val r varname)) (iterrows df))\<rparr>\<rparr>)"
proof -
  have len: "length c = length (index df)" using wf c by (rule getcol_length)
  have rows: "iterrows (select_rows df (map isna c))
      = filter (\<lambda>r. isna (row_val r varname)) (iterrows df)"
    using wf len c by (rule iterrows_select_rows)
  show ?thesis
  proof (cases "length (index (select_rows df (map isna c))) = 0")
    case True
    then have none: "\<forall>v \<in> set c. \<not> isna v"
      using keep_mask_none [of "index df" c isna] len by simp
    have "iterrows (select_rows df (map isna c)) = []"
      using True by (simp add: iterrows_def)
    then have "filter (\<lambda>r. isna (row_val r varname)) (iterrows df) = []"
      using rows by simp
    moreover have "select_rows df (map (\<lambda>v. \<not> isna v) c) = df"
      using wf len none by (rule select_rows_all)
    ultimately show ?thesis
      using True by (simp add: drop_na_def c Let_def)
  next
    case False
    then show ?thesis
      by (simp add: drop_na_def c Let_def foldl_add_warning rows)
  qed
qed

section \<open>Facts about the coercion and validation pass\<close>

lemma ORIGINAL_neq [simp]: "varname @ ''_ORIGINAL'' \<noteq> varname" "varname \<noteq> varname @ ''_ORIGINAL''"
  by simp_all

lemma map_err_Inr:
  "map_err f xs = Inr ys \<Longrightarrow> list_all2 (\<lambda>x y. f x = Inr y) xs ys"
  by (induction xs arbitrary: ys) (auto split: sum.splits)


lemma astype_int64_Inr: "astype_int64 d py_int v = Inr w \<Longrightarrow> v \<noteq> NaN \<and> w \<noteq> NaN"
  by (cases v) (auto split: option.splits if_splits dtype.splits)


lemma coerce_category_length: "coerce_category vd c = Inr c' \<Longrightarrow> length c' = length c"
  by (auto simp: coerce_category_def split: option.splits if_splits sum.splits)

lemma coerce_evolves:
  assumes wf: "wf_table t" and d: "distinct (index t)" and c: "getcol t V = Inr c"
    and co: "coerce vd t V = Inr t2"
  shows "evolves {V} t t2" and "\<exists>c2. getcol t2 V = Inr c2" and "index t2 = index t"
proof -
  have len: "length c = length (index t)" using wf c by (rule getcol_length)
  consider (cat) c' where "vtype vd = TCategory" "coerce_category vd c = Inr c'" "t2 = setcol t V c'"
    | (bool) "vtype vd \<noteq> TCategory" "vtype vd = TBool" "t2 = setcol t V (coerce_bool c)"
    | (other) "t2 = t"
    using co c by (auto simp: coerce_def split: if_splits sum.splits)
  then have "evolves {V} t t2 \<and> (\<exists>c2. getcol t2 V = Inr c2) \<and> index t2 = index t"
  proof cases
    case cat
    then show ?thesis
      using wf d len coerce_category_length [of vd c c']
      by (simp add: evolves_setcol getcol_setcol)
  next
    case bool
    then show ?thesis
      using wf d len by (simp add: evolves_setcol getcol_setcol coerce_bool_def)
  next
    case other
    then show ?thesis using wf d c by (simp add: evolves_refl)
  qed
  then show "evolves {V} t t2" and "\<exists>c2. getcol t2 V = Inr c2" and "index t2 = index t"
    by simp_all
qed

lemma evolvesD:
  assumes "evolves W t t'"
  shows "wf_table t'" and "distinct (index t')" and "set (index t') \<subseteq> set (index t)"
    and "set (columns t) \<subseteq> set (columns t')"
    and "\<And>x i. x \<notin> W \<Longrightarrow> i \<in> set (index t') \<Longrightarrow> cell t' x i = cell t x i"
    and "\<And>x c. x \<notin> W \<Longrightarrow> getcol t x = Inr c \<Longrightarrow> \<exists>c'. getcol t' x = Inr c' \<and> set c' \<subseteq> set c"
  using assms unfolding evolves_def by blast+

lemma process_var_stages:
  assumes pv: "process_var dt py_int self t V = Inr (t', self')"
  shows "\<exists>vd c t2. map_of (variables self) V = Some vd \<and> getcol t V = Inr c
           \<and> coerce vd (setcol t (V @ ''_ORIGINAL'') c) V = Inr t2
           \<and> (if mandatory vd
                then \<exists>t3. drop_na self t2 V = Inr (t3, self') \<and>
                       (if vtype vd = TInt
                        then \<exists>c3 ints. getcol t3 V = Inr c3
                               \<and> map_err (astype_int64 (dt V) py_int) c3 = Inr ints
                               \<and> t' = setcol t3 V ints
                        else t' = t3)
                else t' = t2 \<and> self' = self)"
proof -
  from pv obtain vd where vd: "map_of (variables self) V = Some vd"
    by (cases "map_of (variables self) V") (auto simp: process_var_def)
  from pv vd obtain c where c: "getcol t V = Inr c"
    by (cases "getcol t V") (auto simp: process_var_def)
  from pv vd c obtain t2 where t2: "coerce vd (setcol t (V @ ''_ORIGINAL'') c) V = Inr t2"
    by (cases "coerce vd (setcol t (V @ ''_ORIGINAL'') c) V") (auto simp: process_var_def)
  have rest: "(if mandatory vd
      then (case drop_na self t2 V of
              Inl e \<Rightarrow> Inl e
            | Inr (df3, self') \<Rightarrow>
                if vtype vd = TInt
                then (case getcol df3 V of
                        Inl e \<Rightarrow> Inl e
                      | Inr c \<Rightarrow>
                          (case map_err (astype_int64 (dt V) py_int) c of
                             Inl e \<Rightarrow> Inl e
                           | Inr ints \<Rightarrow> Inr (setcol df3 V ints, self')))
                else Inr (df3, self'))
      else Inr (t2, self)) = Inr (t', self')"
    using pv by (simp add: process_var_def vd c t2)
  have "if mandatory vd
        then \<exists>t3. drop_na self t2 V = Inr (t3, self') \<and>
               (if vtype vd = TInt
                then \<exists>c3 ints. getcol t3 V = Inr c3
                       \<and> map_err (astype_int64 (dt V) py_int) c3 = Inr ints
                       \<and> t' = setcol t3 V ints
                else t' = t3)
        else t' = t2 \<and> self' = self"
    using rest by (auto split: sum.splits prod.splits if_splits)
  with vd c t2 show ?thesis by blast
qed

lemma process_var_evolves:
  assumes wf: "wf_table t" and d: "distinct (index t)"
    and pv: "process_var dt py_int self t V = Inr (t', self')"
  shows "\<exists>vd c. map_of (variables self) V = Some vd \<and> getcol t V = Inr c
           \<and> evolves {V} (setcol t (V @ ''_ORIGINAL'') c) t'
           \<and> (mandatory vd \<longrightarrow> (\<exists>c'. getcol t' V = Inr c' \<and> NaN \<notin> set c'))
           \<and> variables self' = variables self
           \<and> (\<exists>ws. sink self' = (sink self)\<lparr>warnings := warnings (sink self) @ ws\<rparr>)"
proof -
  from process_var_stages [OF pv] obtain vd c t2 where vd: "map_of (variables self) V = Some vd"
    and c: "getcol t V = Inr c"
    and co: "coerce vd (setcol t (V @ ''_ORIGINAL'') c) V = Inr t2"
    and st: "if mandatory vd
        then \<exists>t3. drop_na self t2 V = Inr (t3, self') \<and>
               (if vtype vd = TInt
                then \<exists>c3 ints. getcol t3 V = Inr c3
                       \<and> map_err (astype_int64 (dt V) py_int) c3 = Inr ints
                       \<and> t' = setcol t3 V ints
                else t' = t3)
        else t' = t2 \<and> self' = self"
    by blast
  have nm: "\<not> mandatory vd \<Longrightarrow> t' = t2 \<and> self' = self" using st by simp
  have m: "mandatory vd \<Longrightarrow> \<exists>t3. drop_na self t2 V = Inr (t3, self') \<and>
           (if vtype vd = TInt
            then \<exists>c3 ints. getcol t3 V = Inr c3 \<and> map_err (astype_int64 (dt V) py_int) c3 = Inr ints
                   \<and> t' = setcol t3 V ints
            else t' = t3)" using st by simp
  let ?t1 = "setcol t (V @ ''_ORIGINAL'') c"
  have len: "length c = length (index t)" using wf c by (rule getcol_length)
  have wf1: "wf_table ?t1" using wf len by (rule wf_setcol)
  have d1: "distinct (index ?t1)" using d by simp
  have c1: "getcol ?t1 V = Inr c" using c by (simp add: getcol_setcol)
  have e12: "evolves {V} ?t1 t2" using wf1 d1 c1 co by (rule coerce_evolves(1))
  obtain c2 where c2: "getcol t2 V = Inr c2"
    using coerce_evolves(2) [OF wf1 d1 c1 co] by blast
  have wf2: "wf_table t2" and d2: "distinct (index t2)"
    using evolvesD(1,2) [OF e12] by blast+
  have len2: "length c2 = length (index t2)" using wf2 c2 by (rule getcol_length)
  show ?thesis
  proof (cases "mandatory vd")
    case False
    have "sink self = (sink self)\<lparr>warnings := warnings (sink self) @ []\<rparr>" by simp
    then have "\<exists>ws. sink self = (sink self)\<lparr>warnings := warnings (sink self) @ ws\<rparr>" ..
    then show ?thesis using False nm vd c e12 by auto
  next
    case True
    let ?t3 = "select_rows t2 (map (\<lambda>v. \<not> isna v) c2)"
    from m [OF True] drop_na_spec [OF wf2 c2, of self]
    have s': "self' = self\<lparr>sink := (sink self)\<lparr>warnings := warnings (sink self) @
          map (\<lambda>r. (case_id_fun (sink self) r, perdida V))
            (filter (\<lambda>r. isna (row_val r V)) (iterrows t2))\<rparr>\<rparr>"
      and t': "if vtype vd = TInt
            then \<exists>c3 ints. getcol ?t3 V = Inr c3 \<and> map_err (astype_int64 (dt V) py_int) c3 = Inr ints
                   \<and> t' = setcol ?t3 V ints
            else t' = ?t3"
      by auto
    have e23: "evolves {V} t2 ?t3" using wf2 d2 len2 by (rule evolves_select_rows)
    have c3: "getcol ?t3 V = Inr (filter (\<lambda>v. \<not> isna v) c2)"
      by (simp add: getcol_select_rows c2 keep_mask_self)
    have e13: "evolves {V} ?t1 ?t3" using evolves_trans [OF e12 e23] by simp
    have wf3: "wf_table ?t3" and d3: "distinct (index ?t3)"
      using evolvesD(1,2) [OF e23] by blast+
    have "evolves {V} ?t1 t' \<and> (\<exists>c'. getcol t' V = Inr c' \<and> NaN \<notin> set c')"
    proof (cases "vtype vd = TInt")
      case False
      then have "t' = ?t3" using t' by simp
      then show ?thesis using e13 c3 by (auto simp: isna_def)
    next
      case True
      then obtain ints where ints: "map_err (astype_int64 (dt V) py_int) (filter (\<lambda>v. \<not> isna v) c2) = Inr ints"
        and t'': "t' = setcol ?t3 V ints"
        using t' c3 by auto
      have l2: "list_all2 (\<lambda>x y. astype_int64 (dt V) py_int x = Inr y) (filter (\<lambda>v. \<not> isna v) c2) ints"
        using ints by (rule map_err_Inr)
      then have li: "length ints = length (index ?t3)"
        using getcol_length [OF wf3 c3] by (simp add: list_all2_lengthD)
      have "NaN \<notin> set ints"
        using l2 astype_int64_Inr by (fastforce simp: list_all2_conv_all_nth in_set_conv_nth)
      moreover have e3: "evolves {V} ?t3 t'"
        unfolding t'' using wf3 d3 li by (rule evolves_setcol)
      moreover have "evolves {V} ?t1 t'"
        using evolves_trans [OF e13 e3] by simp
      ultimately show ?thesis
        using t'' by (simp add: getcol_setcol)
    qed
    then show ?thesis using vd c s' by auto
  qed
qed


lemma process_var_frame:
  assumes wf: "wf_table t" and d: "distinct (index t)"
    and pv: "process_var dt py_int self t V = Inr (t', self')"
  shows "wf_table t'" and "distinct (index t')" and "set (index t') \<subseteq> set (index t)"
    and "set (columns t) \<subseteq> set (columns t')"
    and "V @ ''_ORIGINAL'' \<in> set (columns t')"
    and "\<And>x i. x \<noteq> V \<Longrightarrow> x \<noteq> V @ ''_ORIGINAL'' \<Longrightarrow> i \<in> set (index t')
            \<Longrightarrow> cell t' x i = cell t x i"
    and "\<And>i. i \<in> set (index t') \<Longrightarrow> cell t' (V @ ''_ORIGINAL'') i = cell t V i"
    and "\<And>x cx. x \<noteq> V \<Longrightarrow> x \<noteq> V @ ''_ORIGINAL'' \<Longrightarrow> getcol t x = Inr cx
            \<Longrightarrow> \<exists>c'. getcol t' x = Inr c' \<and> set c' \<subseteq> set cx"
    and "variables self' = variables self"
    and "\<exists>ws. sink self' = (sink self)\<lparr>warnings := warnings (sink self) @ ws\<rparr>"
    and "\<exists>vd. map_of (variables self) V = Some vd
           \<and> (mandatory vd \<longrightarrow> (\<exists>c'. getcol t' V = Inr c' \<and> NaN \<notin> set c'))"
    and "\<exists>c. getcol t V = Inr c"
proof -
  from process_var_evolves [OF wf d pv] obtain vd c where
    vd: "map_of (variables self) V = Some vd" and c: "getcol t V = Inr c"
    and ev: "evolves {V} (setcol t (V @ ''_ORIGINAL'') c) t'"
    and man: "mandatory vd \<longrightarrow> (\<exists>c'. getcol t' V = Inr c' \<and> NaN \<notin> set c')"
    and vars: "variables self' = variables self"
    and snk: "\<exists>ws. sink self' = (sink self)\<lparr>warnings := warnings (sink self) @ ws\<rparr>"
    by blast
  let ?t1 = "setcol t (V @ ''_ORIGINAL'') c"
  note E = evolvesD [OF ev]
  show "wf_table t'" and "distinct (index t')" by (rule E)+
  show "set (index t') \<subseteq> set (index t)" using E(3) by simp
  show "set (columns t) \<subseteq> set (columns t')" using E(4) by (auto simp: columns_setcol split: if_splits)
  show "V @ ''_ORIGINAL'' \<in> set (columns t')" using E(4) by (auto simp: columns_setcol split: if_splits)
  show "cell t' x i = cell t x i" if "x \<noteq> V" "x \<noteq> V @ ''_ORIGINAL''" "i \<in> set (index t')" for x i
    using E(5) [of x i] that by (simp add: cell_setcol_other)
  show "cell t' (V @ ''_ORIGINAL'') i = cell t V i" if "i \<in> set (index t')" for i
    using E(5) [of "V @ ''_ORIGINAL''" i] that c by (simp add: cell_setcol_same cell_getcol)
  show "\<exists>c'. getcol t' x = Inr c' \<and> set c' \<subseteq> set cx"
    if "x \<noteq> V" "x \<noteq> V @ ''_ORIGINAL''" "getcol t x = Inr cx" for x cx
    using E(6) [of x cx] that by (simp add: getcol_setcol)
  show "variables self' = variables self" by (rule vars)
  show "\<exists>ws. sink self' = (sink self)\<lparr>warnings := warnings (sink self) @ ws\<rparr>" by (rule snk)
  show "\<exists>vd. map_of (variables self) V = Some vd
           \<and> (mandatory vd \<longrightarrow> (\<exists>c'. getcol t' V = Inr c' \<and> NaN \<notin> set c'))"
    using vd man by blast
  show "\<exists>c. getcol t V = Inr c" using c by blast
qed

lemma process_vars_Cons:
  assumes "process_vars dt py_int self t (V # ns) = Inr (t', self')"
  obtains t1 self1 where "process_var dt py_int self t V = Inr (t1, self1)"
    and "process_vars dt py_int self1 t1 ns = Inr (t', self')"
  using assms by (auto split: sum.splits)

lemma process_vars_original:
  assumes "process_vars dt py_int self t ns = Inr (t', self')"
    and "wf_table t" and "distinct (index t)" and "distinct ns"
    and "\<forall>x \<in> set ns \<union> D. \<forall>y \<in> set ns \<union> D. y \<noteq> x @ ''_ORIGINAL''"
    and "set ns \<inter> D = {}"
    and "\<forall>x \<in> set ns. \<forall>i \<in> set (index t). cell t x i = cell t0 x i"
    and "\<forall>x \<in> D. x @ ''_ORIGINAL'' \<in> set (columns t)
           \<and> (\<forall>i \<in> set (index t). cell t (x @ ''_ORIGINAL'') i = cell t0 x i)"
  shows "wf_table t' \<and> distinct (index t') \<and> set (index t') \<subseteq> set (index t)
         \<and> (\<forall>x \<in> set ns \<union> D. x @ ''_ORIGINAL'' \<in> set (columns t')
               \<and> (\<forall>i \<in> set (index t'). cell t' (x @ ''_ORIGINAL'') i = cell t0 x i))"
  using assms
proof (induction ns arbitrary: t self D)
  case Nil
  then show ?case by simp
next
  case (Cons V ns)
  from Cons.prems(1) obtain t1 self1 where pv: "process_var dt py_int self t V = Inr (t1, self1)"
    and rest: "process_vars dt py_int self1 t1 ns = Inr (t', self')"
    by (rule process_vars_Cons)
  note F = process_var_frame [OF Cons.prems(2,3) pv]
  have hyg: "\<forall>x \<in> set ns \<union> insert V D. \<forall>y \<in> set ns \<union> insert V D. y \<noteq> x @ ''_ORIGINAL''"
    using Cons.prems(5) by auto
  have disj: "set ns \<inter> insert V D = {}" using Cons.prems(4,6) by auto
  have todo: "\<forall>x \<in> set ns. \<forall>i \<in> set (index t1). cell t1 x i = cell t0 x i"
  proof (intro ballI)
    fix x i assume x: "x \<in> set ns" and i: "i \<in> set (index t1)"
    have "x \<noteq> V" using x Cons.prems(4) by auto
    moreover have "x \<noteq> V @ ''_ORIGINAL''" using x Cons.prems(5) by auto
    ultimately have "cell t1 x i = cell t x i" using i by (rule F(6))
    moreover have "i \<in> set (index t)" using i F(3) by auto
    ultimately show "cell t1 x i = cell t0 x i" using Cons.prems(7) x by simp
  qed
  have dn: "\<forall>x \<in> insert V D. x @ ''_ORIGINAL'' \<in> set (columns t1)
           \<and> (\<forall>i \<in> set (index t1). cell t1 (x @ ''_ORIGINAL'') i = cell t0 x i)"
  proof (intro ballI conjI)
    fix x assume x: "x \<in> insert V D"
    show "x @ ''_ORIGINAL'' \<in> set (columns t1)"
      using x F(4,5) Cons.prems(8) by auto
    fix i assume i: "i \<in> set (index t1)"
    then have it: "i \<in> set (index t)" using F(3) by auto
    show "cell t1 (x @ ''_ORIGINAL'') i = cell t0 x i"
    proof (cases "x = V")
      case True
      then show ?thesis using F(7) [OF i] Cons.prems(7) it by simp
    next
      case False
      then have xD: "x \<in> D" using x by simp
      have "x @ ''_ORIGINAL'' \<noteq> V" using Cons.prems(5) xD by auto
      moreover have "x @ ''_ORIGINAL'' \<noteq> V @ ''_ORIGINAL''" using False by simp
      ultimately have "cell t1 (x @ ''_ORIGINAL'') i = cell t (x @ ''_ORIGINAL'') i"
        using i by (rule F(6))
      then show ?thesis using Cons.prems(8) xD it by simp
    qed
  qed
  have "distinct ns" using Cons.prems(4) by simp
  from Cons.IH [OF rest F(1) F(2) this hyg disj todo dn]
  show ?case using F(3) by auto
qed

lemma process_vars_no_missing:
  assumes "process_vars dt py_int self t ns = Inr (t', self')"
    and "wf_table t" and "distinct (index t)"
    and "map_of (variables self) V = Some vd" and "mandatory vd"
    and "\<forall>x \<in> set ns. V \<noteq> x @ ''_ORIGINAL''"
    and "V \<in> set ns \<or> (\<exists>c. getcol t V = Inr c \<and> NaN \<notin> set c)"
  shows "\<exists>c'. getcol t' V = Inr c' \<and> NaN \<notin> set c'"
  using assms
proof (induction ns arbitrary: t self)
  case Nil
  then show ?case by simp
next
  case (Cons W ns)
  from Cons.prems(1) obtain t1 self1 where pv: "process_var dt py_int self t W = Inr (t1, self1)"
    and rest: "process_vars dt py_int self1 t1 ns = Inr (t', self')"
    by (rule process_vars_Cons)
  note F = process_var_frame [OF Cons.prems(2,3) pv]
  have vd1: "map_of (variables self1) V = Some vd" using F(9) Cons.prems(4) by simp
  have hyg: "\<forall>x \<in> set ns. V \<noteq> x @ ''_ORIGINAL''" using Cons.prems(6) by simp
  have "V \<in> set ns \<or> (\<exists>c. getcol t1 V = Inr c \<and> NaN \<notin> set c)"
  proof (cases "W = V")
    case True
    then show ?thesis using F(11) Cons.prems(4,5) by auto
  next
    case False
    show ?thesis
    proof (cases "V \<in> set ns")
      case True
      then show ?thesis by simp
    next
      case False
      with \<open>W \<noteq> V\<close> Cons.prems(7) obtain c where c: "getcol t V = Inr c" "NaN \<notin> set c" by auto
      have "V \<noteq> W @ ''_ORIGINAL''" using Cons.prems(6) by simp
      with F(8) [of V c] \<open>W \<noteq> V\<close> c show ?thesis by auto
    qed
  qed
  from Cons.IH [OF rest F(1) F(2) vd1 Cons.prems(5) hyg this] show ?case .
qed

lemma process_vars_frame:
  assumes "process_vars dt py_int self t ns = Inr (t', self')"
    and "wf_table t" and "distinct (index t)"
  shows "wf_table t' \<and> distinct (index t') \<and> set (index t') \<subseteq> set (index t)
         \<and> set (columns t) \<subseteq> set (columns t')
         \<and> variables self' = variables self
         \<and> (\<exists>ws. sink self' = (sink self)\<lparr>warnings := warnings (sink self) @ ws\<rparr>)
         \<and> (\<forall>x \<in> set ns. \<exists>vd. map_of (variables self) x = Some vd)"
  using assms
proof (induction ns arbitrary: t self)
  case Nil
  have "sink self = (sink self)\<lparr>warnings := warnings (sink self) @ []\<rparr>" by simp
  then have "\<exists>ws. sink self = (sink self)\<lparr>warnings := warnings (sink self) @ ws\<rparr>" ..
  with Nil show ?case by simp
next
  case (Cons W ns)
  from Cons.prems(1) obtain t1 self1 where pv: "process_var dt py_int self t W = Inr (t1, self1)"
    and rest: "process_vars dt py_int self1 t1 ns = Inr (t', self')"
    by (rule process_vars_Cons)
  note F = process_var_frame [OF Cons.prems(2,3) pv]
  note IH = Cons.IH [OF rest F(1) F(2)]
  from F(10) obtain ws1 where ws1: "sink self1 = (sink self)\<lparr>warnings := warnings (sink self) @ ws1\<rparr>"
    by blast
  from IH obtain ws2 where ws2: "sink self' = (sink self1)\<lparr>warnings := warnings (sink self1) @ ws2\<rparr>"
    by blast
  have "sink self' = (sink self)\<lparr>warnings := warnings (sink self) @ (ws1 @ ws2)\<rparr>"
    using ws1 ws2 by simp
  then have "\<exists>ws. sink self' = (sink self)\<lparr>warnings := warnings (sink self) @ ws\<rparr>" ..
  then show ?case using IH F(3,4,9,11) by auto
qed

lemma setitem_evolves:
  assumes wf: "wf_table t" and d: "distinct (index t)" and si: "setitem t n s = Inr t'"
  shows "evolves {n} t t'" and "index t' = index t" and "n \<in> set (columns t')"
proof -
  from si obtain c where c: "t' = setcol t n c" "length c = length (index t)"
    by (auto simp: setitem_def split: if_splits dest: arg_cong [where f = length])
  show "evolves {n} t t'" unfolding c(1) using wf d c(2) by (rule evolves_setcol)
  show "index t' = index t" using c by simp
  show "n \<in> set (columns t')" using c by (simp add: columns_setcol)
qed

lemma compute_derived_loop_evolves:
  assumes "compute_derived_loop k vars t s = Inr (t', s')"
    and "wf_table t" and "distinct (index t)"
  shows "evolves {n. \<exists>vd. (n, vd) \<in> set vars \<and> get_hook vd k \<noteq> None} t t'
         \<and> index t' = index t
         \<and> (\<forall>p \<in> set vars. get_hook (snd p) k \<noteq> None \<longrightarrow> fst p \<in> set (columns t'))"
  using assms
proof (induction vars arbitrary: t s)
  case Nil
  then show ?case by (simp add: evolves_refl)
next
  case (Cons p vars)
  obtain n vd where p: "p = (n, vd)" by (cases p)
  show ?case
  proof (cases "get_hook vd k")
    case None
    then have "compute_derived_loop k vars t s = Inr (t', s')"
      using Cons.prems(1) p by simp
    from Cons.IH [OF this Cons.prems(2,3)] show ?thesis
      using None p by (auto elim!: evolves_mono)
  next
    case (Some f)
    with Cons.prems(1) p obtain ser s1 t1 where f: "f t s = Inr (ser, s1)"
      and si: "setitem t n ser = Inr t1"
      and rest: "compute_derived_loop k vars t1 s1 = Inr (t', s')"
      by (auto split: sum.splits)
    note S = setitem_evolves [OF Cons.prems(2,3) si]
    note E1 = evolvesD [OF S(1)]
    from Cons.IH [OF rest E1(1) E1(2)]
    have e2: "evolves {n. \<exists>vd. (n, vd) \<in> set vars \<and> get_hook vd k \<noteq> None} t1 t'"
      and ix: "index t' = index t1"
      and cs: "\<forall>p \<in> set vars. get_hook (snd p) k \<noteq> None \<longrightarrow> fst p \<in> set (columns t')"
      by simp_all
    have "evolves ({n} \<union> {n. \<exists>vd. (n, vd) \<in> set vars \<and> get_hook vd k \<noteq> None}) t t'"
      using S(1) e2 by (rule evolves_trans)
    then have "evolves {m. \<exists>vd. (m, vd) \<in> set (p # vars) \<and> get_hook vd k \<noteq> None} t t'"
      by (rule evolves_mono) (use p Some in auto)
    moreover have "n \<in> set (columns t')"
      using S(3) evolvesD(4) [OF e2] by auto
    ultimately show ?thesis using ix S(2) cs p by auto
  qed
qed

lemma compute_derived_Inr:
  "compute_derived self t k = Inr (t', self') \<longleftrightarrow>
     (\<exists>s'. compute_derived_loop k (variables self) t (sink self) = Inr (t', s')
            \<and> self' = self\<lparr>sink := s'\<rparr>)"
  by (auto simp: compute_derived_def split: sum.splits)

lemma preprocess_stages:
  assumes "preprocess dt py_int self t = Inr (t', self')"
  obtains t1 self1 t2 self2 where "compute_derived self t Pre = Inr (t1, self1)"
    and "process_vars dt py_int self1 t1 (columns t1) = Inr (t2, self2)"
    and "compute_derived self2 t2 Post = Inr (t', self')"
  using assms by (auto simp: preprocess_def split: sum.splits)

lemma no_hook_unwritten:
  assumes "distinct (map fst vars)" and "map_of vars V = Some vd" and "get_hook vd k = None"
  shows "V \<notin> {n. \<exists>vd. (n, vd) \<in> set vars \<and> get_hook vd k \<noteq> None}"
proof
  assume "V \<in> {n. \<exists>vd. (n, vd) \<in> set vars \<and> get_hook vd k \<noteq> None}"
  then obtain vd' where v': "(V, vd') \<in> set vars" "get_hook vd' k \<noteq> None" by blast
  have "map_of vars V = Some vd'" using assms(1) v'(1) by simp
  with assms(2,3) v'(2) show False by simp
qed

lemma select_rows_frame:
  "index (select_rows t m) = keep_mask m (index t)
   \<and> columns (select_rows t m) = columns t
   \<and> (\<forall>x cx. getcol t x = Inr cx \<longrightarrow> getcol (select_rows t m) x = Inr (keep_mask m cx))"
  by (simp add: getcol_select_rows)


text \<open>The loop over a list of names that is split in two.\<close>

lemma process_vars_append:
  "process_vars dt py_int self t (ns1 @ ns2) =
     (case process_vars dt py_int self t ns1 of
        Inl e \<Rightarrow> Inl e
      | Inr (t1, self1) \<Rightarrow> process_vars dt py_int self1 t1 ns2)"
  by (induction ns1 arbitrary: self t) (auto split: sum.splits)

lemma map_label_iterrows: "map label (iterrows t) = index t"
  by (simp add: iterrows_def row_at_def o_def map_nth)

lemma process_var_mandatory:
  assumes wf: "wf_table t" and d: "distinct (index t)"
    and vd: "map_of (variables self) V = Some vd" and man: "mandatory vd"
    and pv: "process_var dt py_int self t V = Inr (t', self')"
  shows "\<exists>c tV cV. getcol t V = Inr c
           \<and> coerce vd (setcol t (V @ ''_ORIGINAL'') c) V = Inr tV \<and> getcol tV V = Inr cV
           \<and> wf_table tV \<and> distinct (index tV)
           \<and> self' = self\<lparr>sink := (sink self)\<lparr>warnings := warnings (sink self) @
                  map (\<lambda>r. (case_id_fun (sink self) r, perdida V))
                    (filter (\<lambda>r. isna (row_val r V)) (iterrows tV))\<rparr>\<rparr>
           \<and> (if vtype vd = TInt
               then \<exists>ints. map_err (astype_int64 (dt V) py_int) (keep_mask (map (\<lambda>v. \<not> isna v) cV) cV)
                              = Inr ints
                      \<and> t' = setcol (select_rows tV (map (\<lambda>v. \<not> isna v) cV)) V ints
               else t' = select_rows tV (map (\<lambda>v. \<not> isna v) cV))"
proof -
  from process_var_stages [OF pv] vd obtain c t2 where c: "getcol t V = Inr c"
    and co: "coerce vd (setcol t (V @ ''_ORIGINAL'') c) V = Inr t2"
    and st: "if mandatory vd
        then \<exists>t3. drop_na self t2 V = Inr (t3, self') \<and>
               (if vtype vd = TInt
                then \<exists>c3 ints. getcol t3 V = Inr c3
                       \<and> map_err (astype_int64 (dt V) py_int) c3 = Inr ints
                       \<and> t' = setcol t3 V ints
                else t' = t3)
        else t' = t2 \<and> self' = self"
    by auto
  let ?t1 = "setcol t (V @ ''_ORIGINAL'') c"
  have len: "length c = length (index t)" using wf c by (rule getcol_length)
  have wf1: "wf_table ?t1" using wf len by (rule wf_setcol)
  have d1: "distinct (index ?t1)" using d by simp
  have c1: "getcol ?t1 V = Inr c" using c by (simp add: getcol_setcol)
  have e12: "evolves {V} ?t1 t2" using wf1 d1 c1 co by (rule coerce_evolves(1))
  obtain c2 where c2: "getcol t2 V = Inr c2"
    using coerce_evolves(2) [OF wf1 d1 c1 co] by blast
  have wf2: "wf_table t2" and d2: "distinct (index t2)"
    using evolvesD(1,2) [OF e12] by blast+
  let ?m = "map (\<lambda>v. \<not> isna v) c2"
  from st man drop_na_spec [OF wf2 c2, of self]
  have s': "self' = self\<lparr>sink := (sink self)\<lparr>warnings := warnings (sink self) @
          map (\<lambda>r. (case_id_fun (sink self) r, perdida V))
            (filter (\<lambda>r. isna (row_val r V)) (iterrows t2))\<rparr>\<rparr>"
    and t': "if vtype vd = TInt
          then \<exists>c3 ints. getcol (select_rows t2 ?m) V = Inr c3
                 \<and> map_err (astype_int64 (dt V) py_int) c3 = Inr ints
                 \<and> t' = setcol (select_rows t2 ?m) V ints
          else t' = select_rows t2 ?m"
    by auto
  have c3: "getcol (select_rows t2 ?m) V = Inr (keep_mask ?m c2)"
    by (simp add: getcol_select_rows c2)
  have "if vtype vd = TInt
        then \<exists>ints. map_err (astype_int64 (dt V) py_int) (keep_mask ?m c2) = Inr ints
               \<and> t' = setcol (select_rows t2 ?m) V ints
        else t' = select_rows t2 ?m"
    using t' c3 by (auto split: if_splits)
  with c co c2 wf2 d2 s' show ?thesis by blast
qed

section \<open>Facts about the warning log\<close>

lemma appends_refl: "appends s s"
proof -
  have "s = s\<lparr>warnings := warnings s @ []\<rparr>" by simp
  then show ?thesis unfolding appends_def ..
qed

lemma appends_trans: "appends s s' \<Longrightarrow> appends s' s'' \<Longrightarrow> appends s s''"
proof -
  assume "appends s s'" and "appends s' s''"
  then obtain w1 w2 where "s' = s\<lparr>warnings := warnings s @ w1\<rparr>"
    and "s'' = s'\<lparr>warnings := warnings s' @ w2\<rparr>"
    unfolding appends_def by blast
  then have "s'' = s\<lparr>warnings := warnings s @ (w1 @ w2)\<rparr>" by simp
  then show ?thesis unfolding appends_def ..
qed

lemma appends_add_warning: "appends s (add_warning s c t)"
  unfolding appends_def add_warning_def by (auto simp: Let_def)

lemma drop_na_appends:
  assumes "drop_na self t V = Inr (t', self')"
  shows "variables self' = variables self \<and> appends (sink self) (sink self')"
proof -
  have "appends s (foldl (\<lambda>s r. add_warning s (CaseRow r) msg) s rs)" for s rs msg
    unfolding foldl_add_warning appends_def by blast
  then show ?thesis
    using assms appends_refl
    by (auto simp: drop_na_def Let_def split: sum.splits if_splits)
qed

lemma process_var_appends:
  assumes "process_var dt py_int self t V = Inr (t', self')"
  shows "variables self' = variables self \<and> appends (sink self) (sink self')"
proof -
  from process_var_stages [OF assms] obtain vd c t2 where
    "map_of (variables self) V = Some vd" and "getcol t V = Inr c"
    and "coerce vd (setcol t (V @ ''_ORIGINAL'') c) V = Inr t2" and
    st: "if mandatory vd
        then \<exists>t3. drop_na self t2 V = Inr (t3, self') \<and>
               (if vtype vd = TInt
                then \<exists>c3 ints. getcol t3 V = Inr c3
                       \<and> map_err (astype_int64 (dt V) py_int) c3 = Inr ints
                       \<and> t' = setcol t3 V ints
                else t' = t3)
        else t' = t2 \<and> self' = self"
    by blast
  show ?thesis
  proof (cases "mandatory vd")
    case True
    then show ?thesis using st drop_na_appends by auto
  next
    case False
    then show ?thesis using st appends_refl by simp
  qed
qed

lemma process_vars_appends:
  "process_vars dt py_int self t ns = Inr (t', self') \<Longrightarrow>
   variables self' = variables self \<and> appends (sink self) (sink self')"
proof (induction ns arbitrary: t self)
  case Nil
  then show ?case by (simp add: appends_refl)
next
  case (Cons V ns)
  from Cons.prems obtain t1 self1 where pv: "process_var dt py_int self t V = Inr (t1, self1)"
    and rest: "process_vars dt py_int self1 t1 ns = Inr (t', self')"
    by (rule process_vars_Cons)
  from process_var_appends [OF pv] Cons.IH [OF rest] show ?case
    by (auto intro: appends_trans)
qed

lemma compute_derived_loop_appends:
  assumes "compute_derived_loop k vars t s = Inr (t', s')"
    and "\<forall>p \<in> set vars. \<forall>h. get_hook (snd p) k = Some h \<longrightarrow>
           (\<forall>t s ser s'. h t s = Inr (ser, s') \<longrightarrow> appends s s')"
  shows "appends s s'"
  using assms
proof (induction vars arbitrary: t s)
  case Nil
  then show ?case by (simp add: appends_refl)
next
  case (Cons p vars)
  obtain n vd where p: "p = (n, vd)" by (cases p)
  show ?case
  proof (cases "get_hook vd k")
    case None
    then show ?thesis using Cons p by simp
  next
    case (Some f)
    with Cons.prems(1) p obtain ser s1 t1 where f: "f t s = Inr (ser, s1)"
      and rest: "compute_derived_loop k vars t1 s1 = Inr (t', s')"
      by (auto split: sum.splits)
    have "appends s s1" using Cons.prems(2) p Some f by auto
    moreover have "appends s1 s'" using Cons.IH [OF rest] Cons.prems(2) by simp
    ultimately show ?thesis by (rule appends_trans)
  qed
qed

lemma compute_derived_appends:
  assumes "compute_derived self t k = Inr (t', self')" and "hooks_append (variables self)"
  shows "variables self' = variables self \<and> appends (sink self) (sink self')"
proof -
  from assms(1) obtain s' where l: "compute_derived_loop k (variables self) t (sink self) = Inr (t', s')"
    and s: "self' = self\<lparr>sink := s'\<rparr>"
    by (auto simp: compute_derived_Inr)
  have "\<forall>p \<in> set (variables self). \<forall>h. get_hook (snd p) k = Some h \<longrightarrow>
           (\<forall>t s ser s'. h t s = Inr (ser, s') \<longrightarrow> appends s s')"
    using assms(2) unfolding hooks_append_def appends_def get_hook_def
    by (cases k) auto
  from compute_derived_loop_appends [OF l this] s show ?thesis by simp
qed

lemma preprocess_appends:
  assumes "preprocess dt py_int self t = Inr (t', self')" and "hooks_append (variables self)"
  shows "variables self' = variables self \<and> appends (sink self) (sink self')"
proof -
  from assms(1) obtain t1 self1 t2 self2 where a: "compute_derived self t Pre = Inr (t1, self1)"
    and b: "process_vars dt py_int self1 t1 (columns t1) = Inr (t2, self2)"
    and c: "compute_derived self2 t2 Post = Inr (t', self')"
    by (rule preprocess_stages)
  note A = compute_derived_appends [OF a assms(2)]
  note B = process_vars_appends [OF b]
  have "hooks_append (variables self2)" using A B assms(2) by simp
  note C = compute_derived_appends [OF c this]
  show ?thesis using A B C by (auto intro: appends_trans)
qed

lemma load_data_Inr:
  assumes "load_data dt py_int fs self fname ctx na_values = Inr (df', self', ctx')"
  obtains df where "read_csv fs fname (csv_varnames self) na_values = Inr df"
    and "preprocess dt py_int self df = Inr (df', self')"
    and "ctx' = ctx @ [\<lparr>result_id = ''root'', table_id = ''warnings'', title = ''Warnings'',
                        headings = [''Caso'', ''''], rows = warnings (sink self')\<rparr>]"
  using assms by (auto simp: load_data_def add_table_def split: sum.splits)

text \<open>The warnings of the coercion pass are those of \<open>_drop_na\<close>.\<close>

lemma drop_na_messages:
  assumes "drop_na self t V = Inr (t', self')"
  shows "\<exists>ws. warnings (sink self') = warnings (sink self) @ ws \<and> snd ` set ws \<subseteq> {perdida V}"
  using assms
  by (auto simp: drop_na_def Let_def foldl_add_warning split: sum.splits if_splits)

lemma process_var_messages:
  assumes "process_var dt py_int self t V = Inr (t', self')"
  shows "\<exists>ws. warnings (sink self') = warnings (sink self) @ ws \<and> snd ` set ws \<subseteq> {perdida V}"
proof -
  from process_var_stages [OF assms] obtain vd c t2 where
    "map_of (variables self) V = Some vd" and "getcol t V = Inr c"
    and "coerce vd (setcol t (V @ ''_ORIGINAL'') c) V = Inr t2" and
    st: "if mandatory vd
        then \<exists>t3. drop_na self t2 V = Inr (t3, self') \<and>
               (if vtype vd = TInt
                then \<exists>c3 ints. getcol t3 V = Inr c3
                       \<and> map_err (astype_int64 (dt V) py_int) c3 = Inr ints
                       \<and> t' = setcol t3 V ints
                else t' = t3)
        else t' = t2 \<and> self' = self"
    by blast
  show ?thesis
  proof (cases "mandatory vd")
    case True
    then obtain t3 where "drop_na self t2 V = Inr (t3, self')" using st by auto
    then show ?thesis by (rule drop_na_messages)
  next
    case False
    then have "self' = self" using st by simp
    then show ?thesis by simp
  qed
qed

lemma process_vars_messages:
  "process_vars dt py_int self t ns = Inr (t', self') \<Longrightarrow>
   \<exists>ws. warnings (sink self') = warnings (sink self) @ ws \<and> snd ` set ws \<subseteq> perdida ` set ns"
proof (induction ns arbitrary: t self)
  case Nil
  then show ?case by simp
next
  case (Cons V ns)
  from Cons.prems obtain t1 self1 where pv: "process_var dt py_int self t V = Inr (t1, self1)"
    and rest: "process_vars dt py_int self1 t1 ns = Inr (t', self')"
    by (rule process_vars_Cons)
  from process_var_messages [OF pv] obtain w1 where
    w1: "warnings (sink self1) = warnings (sink self) @ w1" "snd ` set w1 \<subseteq> {perdida V}"
    by blast
  from Cons.IH [OF rest] obtain w2 where
    w2: "warnings (sink self') = warnings (sink self1) @ w2" "snd ` set w2 \<subseteq> perdida ` set ns"
    by blast
  have "warnings (sink self') = warnings (sink self) @ (w1 @ w2)" using w1 w2 by simp
  moreover have "snd ` set (w1 @ w2) \<subseteq> perdida ` set (V # ns)" using w1 w2 by auto
  ultimately show ?case by blast
qed

section \<open>Facts about loading and completion\<close>

lemma read_csv_Inr:
  assumes "read_csv fs fname usecols na_values = Inr df"
  obtains f where "fs fname = Inr f" and "set usecols \<subseteq> set (header f)"
    and "columns df = filter (\<lambda>h. h \<in> set usecols) (header f)"
    and "index df = [0..<(if usecols = [] then 0 else n_records f)]"
  using assms
  by (auto simp: read_csv_def columns_def o_def Let_def split: sum.splits if_splits)

lemma wf_read_csv:
  assumes "read_csv fs fname usecols na_values = Inr df" and "fs fname = Inr f"
    and "distinct (header f)"
  shows "wf_table df \<and> distinct (index df)"
  using assms
  by (auto simp: read_csv_def wf_table_def columns_def o_def Let_def split: if_splits)

lemma set_csv_varnames:
  "set (csv_varnames self) =
     {n. \<exists>vd. (n, vd) \<in> set (variables self)
              \<and> computation_pre vd = None \<and> computation_post vd = None}"
  by (force simp: csv_varnames_def)







section \<open>Evaluating the examples\<close>

lemma upt2: "[0..<2] = [0, 1]"
  by (simp add: upt_rec)

lemma floor_demo: "\<lfloor>61 / 2 :: rat\<rfloor> = 30"
  by (rule floor_unique) simp_all

lemma trunc_demo: "trunc (61 / 2) = 30" "trunc 41 = 41" "in_int64 30" "in_int64 41"
  by (simp_all add: trunc_def floor_demo in_int64_def)

lemma demo_csv_varnames: "csv_varnames (demo_loader ws) = [''age'', ''w1'', ''w2'']"
  by (simp add: csv_varnames_def demo_loader_def demo_variables_def plain_def)

lemma demo_read:
  "read_csv demo_fs ''data.csv'' (csv_varnames (demo_loader ws)) ['' ''] = Inr demo_raw"
  by (simp add: demo_csv_varnames read_csv_def demo_fs_def demo_file_def demo_raw_def upt3
      na_cell_def)

lemma demo_pre:
  "compute_derived (demo_loader ws) demo_raw Pre =
     Inr (demo_derived, demo_loader (ws @ demo_warnings1))"
  by (simp add: compute_derived_def demo_loader_def demo_variables_def plain_def get_hook_def
      combine_variables_def df_apply_def iterrows_def row_at_def demo_raw_def upt3
      combine_variables_row_def getitem_def is_nan_or_na_def DEFAULT_NA_VALUES_def resolve_def
      add_warning_def conflict_text_def fmt_demo_def demo_sink_def setitem_def setcol_def
      demo_derived_def demo_warnings1_def Let_def)

lemma demo_pass:
  "process_vars float_cols no_int (demo_loader (ws @ demo_warnings1)) demo_derived (columns demo_derived) =
     Inr (demo_out, demo_loader (ws @ demo_warnings))"
  by (simp add: columns_def demo_derived_def process_var_def demo_loader_def demo_variables_def
      plain_def getcol_def setcol_def coerce_def coerce_bool_def drop_na_def select_rows_def
      isna_def iterrows_def row_at_def upt3 upt2 add_warning_def perdida_def demo_sink_def
      demo_warnings1_def demo_warnings_def trunc_demo demo_out_def Let_def no_int_def)

lemma demo_post:
  "compute_derived (demo_loader ws) t Post = Inr (t, demo_loader ws)"
  by (simp add: compute_derived_def demo_loader_def demo_variables_def plain_def get_hook_def)

lemma demo_preprocess:
  "preprocess float_cols no_int (demo_loader ws) demo_raw = Inr (demo_out, demo_loader (ws @ demo_warnings))"
  by (simp add: preprocess_def demo_pre demo_pass demo_post)

lemma demo_loader_simps [simp]:
  "warnings (sink (demo_loader ws)) = ws" "variables (demo_loader ws) = demo_variables"
  by (simp_all add: demo_loader_def)

lemma demo_load:
  "load_data float_cols no_int demo_fs (demo_loader ws) ''data.csv'' ctx ['' ''] =
     Inr (demo_out, demo_loader (ws @ demo_warnings), ctx @ [warnings_table (ws @ demo_warnings)])"
  by (simp add: load_data_def demo_read demo_preprocess add_table_def warnings_table_def)

lemma post_preprocess:
  "preprocess float_cols no_int post_loader post_raw = Inr (post_out, post_loader)"
  by (simp add: preprocess_def compute_derived_def post_loader_def post_e_def plain_def
      get_hook_def columns_def post_raw_def process_var_def getcol_def setcol_def coerce_def
      multibool_to_enum_def df_apply_def iterrows_def row_at_def upt2 multibool_to_enum_row_def
      getitem_def isna_def DEFAULT_NA_VALUES_def setitem_def post_out_def Let_def)

lemma upt1: "[0..<1] = [0]"
  by (simp add: upt_rec)




lemma two_preprocess:
  "preprocess float_cols no_int two_loader two_raw =
     Inr (two_out, two_loader\<lparr>sink := demo_sink\<lparr>warnings := [(''case 0'', ''u perdida'')]\<rparr>\<rparr>)"
  by (simp add: preprocess_def compute_derived_def two_loader_def plain_def get_hook_def
      columns_def two_raw_def process_var_def getcol_def setcol_def coerce_def drop_na_def
      select_rows_def isna_def iterrows_def row_at_def upt2 upt1 add_warning_def perdida_def
      demo_sink_def two_out_def Let_def)

lemma twin_preprocess:
  "preprocess float_cols no_int twin_loader twin_raw = Inr (twin_out, twin_loader)"
  by (simp add: preprocess_def compute_derived_def twin_loader_def plain_def get_hook_def
      columns_def twin_raw_def process_var_def getcol_def setcol_def coerce_def coerce_bool_def
      twin_out_def Let_def)

lemma demo_wf: "wf_table demo_raw" "distinct (index demo_raw)"
  "wf_table demo_derived" "distinct (index demo_derived)"
  by (simp_all add: wf_table_def columns_def demo_raw_def demo_derived_def)

lemma demo_hygiene:
  "\<forall>n \<in> fst ` set (variables (demo_loader ws)). \<forall>x \<in> set (columns demo_derived).
     n \<noteq> x @ ''_ORIGINAL''"
  by (auto simp: demo_variables_def dest: arg_cong [where f = length])


section \<open>Mandatory variables\<close>

text \<open>
  Claim C1, as amended. Let the table have distinct column names and row labels and the
  registry distinct keys, and let \<open>V\<close> be a mandatory variable that is a column when the
  coercion pass starts (read from the file or computed by a pre-pass hook), that has no
  post-pass hook and that is not named as the \<open>_ORIGINAL\<close> twin of a declared
  variable. A run of \<open>_preprocess\<close> that completes reaches \<open>V\<close> once, with the table
  \<open>ta\<close> and the loader \<open>la\<close> that the columns before \<open>V\<close> left. The step for \<open>V\<close>
  makes the \<open>_ORIGINAL\<close> copy and coerces \<open>V\<close> (table \<open>tV\<close>); then it appends to the
  log exactly one warning \<open><V> perdida\<close>, keyed by the row's case identifier, for
  every row of \<open>tV\<close> whose \<open>V\<close> is missing, in row order, and the rows it leaves are
  exactly the other rows of \<open>tV\<close>. The rest of the pass only appends to the log, with
  no other warning \<open><V> perdida\<close>; when the hooks of the registry use the loader only
  to append, the log \<open>_preprocess\<close> returns is the log it found with these warnings in
  it. No dropped row comes back, and the table returned has no missing value in column
  \<open>V\<close>.
\<close>

theorem mandatory_no_missing:
  assumes wf: "wf_table df" and dix: "distinct (index df)"
    and keys: "distinct (map fst (variables self))"
    and pre: "compute_derived self df Pre = Inr (t1, self1)"
    and pp: "preprocess dt py_int self df = Inr (df', self')"
    and vd: "map_of (variables self) V = Some vd"
    and man: "mandatory vd" and npost: "computation_post vd = None"
    and col: "V \<in> set (columns t1)"
    and hyg: "\<forall>x \<in> fst ` set (variables self). V \<noteq> x @ ''_ORIGINAL''"
  shows "\<exists>ns1 rest ta la c tV tb lb t2 l2 w0 w1.
           columns t1 = ns1 @ V # rest
           \<and> process_vars dt py_int self1 t1 ns1 = Inr (ta, la)
           \<and> getcol ta V = Inr c \<and> coerce vd (setcol ta (V @ ''_ORIGINAL'') c) V = Inr tV
           \<and> process_var dt py_int la ta V = Inr (tb, lb)
           \<and> warnings (sink lb) = warnings (sink la) @
                map (\<lambda>r. (case_id_fun (sink la) r, V @ '' perdida''))
                  (filter (\<lambda>r. isna (row_val r V)) (iterrows tV))
           \<and> index tb = map label (filter (\<lambda>r. \<not> isna (row_val r V)) (iterrows tV))
           \<and> process_vars dt py_int lb tb rest = Inr (t2, l2)
           \<and> compute_derived l2 t2 Post = Inr (df', self')
           \<and> warnings (sink la) = warnings (sink self1) @ w0
           \<and> warnings (sink l2) = warnings (sink lb) @ w1
           \<and> (\<forall>p \<in> set (w0 @ w1). snd p \<noteq> V @ '' perdida'')
           \<and> set (index df') \<subseteq> set (index tb)
           \<and> (\<exists>c'. getcol df' V = Inr c' \<and> NaN \<notin> set c')
           \<and> (hooks_append (variables self) \<longrightarrow>
                 (\<exists>wa wb. warnings (sink self') = warnings (sink self) @ wa @
                    map (\<lambda>r. (case_id_fun (sink la) r, V @ '' perdida''))
                      (filter (\<lambda>r. isna (row_val r V)) (iterrows tV)) @ wb))"
proof -
  from pp pre obtain t2 l2 where
    pvs: "process_vars dt py_int self1 t1 (columns t1) = Inr (t2, l2)"
    and post: "compute_derived l2 t2 Post = Inr (df', self')"
    by (auto simp: preprocess_def split: sum.splits)
  from pre obtain s1 where l1: "compute_derived_loop Pre (variables self) df (sink self) = Inr (t1, s1)"
    and self1: "self1 = self\<lparr>sink := s1\<rparr>"
    by (auto simp: compute_derived_Inr)
  have e1: "evolves {n. \<exists>vd. (n, vd) \<in> set (variables self) \<and> get_hook vd Pre \<noteq> None} df t1"
    using compute_derived_loop_evolves [OF l1 wf dix] by simp
  have wf1: "wf_table t1" and d1: "distinct (index t1)" using evolvesD(1,2) [OF e1] by blast+
  from col obtain ns1 rest where sp: "columns t1 = ns1 @ V # rest"
    by (auto dest: split_list)
  have dc: "distinct (columns t1)" using wf1 by (simp add: wf_table_def)
  from pvs sp obtain ta la where a: "process_vars dt py_int self1 t1 ns1 = Inr (ta, la)"
    and b: "process_vars dt py_int la ta (V # rest) = Inr (t2, l2)"
    by (auto simp: process_vars_append split: sum.splits)
  note Fa = process_vars_frame [OF a wf1 d1]
  have wfa: "wf_table ta" and da: "distinct (index ta)" and va: "variables la = variables self"
    using Fa self1 by simp_all
  from process_vars_messages [OF a] obtain w0 where
    w0: "warnings (sink la) = warnings (sink self1) @ w0" and m0: "snd ` set w0 \<subseteq> perdida ` set ns1"
    by blast
  have vda: "map_of (variables la) V = Some vd" using vd va by simp
  from b obtain tb lb where pv: "process_var dt py_int la ta V = Inr (tb, lb)"
    and r: "process_vars dt py_int lb tb rest = Inr (t2, l2)"
    by (rule process_vars_Cons)
  from process_var_mandatory [OF wfa da vda man pv] obtain c tV cV where
    c: "getcol ta V = Inr c"
    and co: "coerce vd (setcol ta (V @ ''_ORIGINAL'') c) V = Inr tV" and cV: "getcol tV V = Inr cV"
    and wfV: "wf_table tV"
    and lb: "lb = la\<lparr>sink := (sink la)\<lparr>warnings := warnings (sink la) @
                  map (\<lambda>r. (case_id_fun (sink la) r, perdida V))
                    (filter (\<lambda>r. isna (row_val r V)) (iterrows tV))\<rparr>\<rparr>"
    and tb: "if vtype vd = TInt
               then \<exists>ints. map_err (astype_int64 (dt V) py_int) (keep_mask (map (\<lambda>v. \<not> isna v) cV) cV)
                              = Inr ints
                      \<and> tb = setcol (select_rows tV (map (\<lambda>v. \<not> isna v) cV)) V ints
               else tb = select_rows tV (map (\<lambda>v. \<not> isna v) cV)"
    by blast
  have wlb: "warnings (sink lb) = warnings (sink la) @
                map (\<lambda>r. (case_id_fun (sink la) r, V @ '' perdida''))
                  (filter (\<lambda>r. isna (row_val r V)) (iterrows tV))"
    by (subst lb) (simp add: perdida_def)
  have lenV: "length cV = length (index tV)" using wfV cV by (rule getcol_length)
  have "index tb = index (select_rows tV (map (\<lambda>v. \<not> isna v) cV))"
    using tb by (auto split: if_splits)
  also have "\<dots> = map label (iterrows (select_rows tV (map (\<lambda>v. \<not> isna v) cV)))"
    by (simp only: map_label_iterrows)
  also have "\<dots> = map label (filter (\<lambda>r. \<not> isna (row_val r V)) (iterrows tV))"
    by (simp only: iterrows_select_rows [OF wfV lenV cV])
  finally have ixb: "index tb = map label (filter (\<lambda>r. \<not> isna (row_val r V)) (iterrows tV))" .
  note Fv = process_var_frame [OF wfa da pv]
  note Fr = process_vars_frame [OF r Fv(1) Fv(2)]
  from process_vars_messages [OF r] obtain w1 where
    w1: "warnings (sink l2) = warnings (sink lb) @ w1" and m1: "snd ` set w1 \<subseteq> perdida ` set rest"
    by blast
  have "V \<notin> set ns1" "V \<notin> set rest" using dc sp by auto
  then have "perdida V \<notin> perdida ` set ns1" "perdida V \<notin> perdida ` set rest"
    by (auto simp: perdida_def)
  then have only: "\<forall>p \<in> set (w0 @ w1). snd p \<noteq> V @ '' perdida''"
    using m0 m1 by (auto simp: perdida_def)
  have wf2: "wf_table t2" and d2: "distinct (index t2)" and v2: "variables l2 = variables self"
    using Fr Fv(9) va by simp_all
  from post obtain s3 where l3: "compute_derived_loop Post (variables l2) t2 (sink l2) = Inr (df', s3)"
    by (auto simp: compute_derived_Inr)
  have e3: "evolves {n. \<exists>vd. (n, vd) \<in> set (variables self) \<and> get_hook vd Post \<noteq> None} t2 df'"
    and i3: "index df' = index t2"
    using compute_derived_loop_evolves [OF l3 wf2 d2] v2 by simp_all
  have sub: "set (index df') \<subseteq> set (index tb)" using i3 Fr by simp
  have decl: "x \<in> fst ` set (variables self)" if "x \<in> set (columns t1)" for x
  proof -
    from that obtain vx where "map_of (variables self1) x = Some vx"
      using process_vars_frame [OF pvs wf1 d1] by blast
    then have "(x, vx) \<in> set (variables self)" using self1 by (auto dest: map_of_SomeD)
    then show ?thesis by (rule rev_image_eqI) simp
  qed
  have hyg1: "\<forall>x \<in> set (columns t1). V \<noteq> x @ ''_ORIGINAL''"
    using hyg decl by blast
  have vd1: "map_of (variables self1) V = Some vd" using vd self1 by simp
  have "\<exists>c. getcol t2 V = Inr c \<and> NaN \<notin> set c"
    using pvs wf1 d1 vd1 man hyg1 col by (intro process_vars_no_missing [where ns = "columns t1"]) auto
  then obtain c2 where c2: "getcol t2 V = Inr c2" "NaN \<notin> set c2" by blast
  have "V \<notin> {n. \<exists>vd. (n, vd) \<in> set (variables self) \<and> get_hook vd Post \<noteq> None}"
    using keys vd npost by (intro no_hook_unwritten) (simp_all add: get_hook_def)
  from evolvesD(6) [OF e3 this c2(1)] c2(2)
  have fin: "\<exists>c'. getcol df' V = Inr c' \<and> NaN \<notin> set c'" by blast
  have hk: "hooks_append (variables self) \<longrightarrow>
      (\<exists>wa wb. warnings (sink self') = warnings (sink self) @ wa @
         map (\<lambda>r. (case_id_fun (sink la) r, V @ '' perdida''))
           (filter (\<lambda>r. isna (row_val r V)) (iterrows tV)) @ wb)"
  proof
    assume h: "hooks_append (variables self)"
    from compute_derived_appends [OF pre h] obtain wp where
      "sink self1 = (sink self)\<lparr>warnings := warnings (sink self) @ wp\<rparr>"
      unfolding appends_def by blast
    then have wp: "warnings (sink self1) = warnings (sink self) @ wp"
      by (metis Sink.select_convs(2) Sink.surjective Sink.update_convs(2))
    have "hooks_append (variables l2)" using h v2 by simp
    from compute_derived_appends [OF post this] obtain ws where
      "sink self' = (sink l2)\<lparr>warnings := warnings (sink l2) @ ws\<rparr>"
      unfolding appends_def by blast
    then have "warnings (sink self') = warnings (sink l2) @ ws"
      by (metis Sink.select_convs(2) Sink.surjective Sink.update_convs(2))
    then have "warnings (sink self') = warnings (sink self) @ (wp @ w0) @
         map (\<lambda>r. (case_id_fun (sink la) r, V @ '' perdida''))
           (filter (\<lambda>r. isna (row_val r V)) (iterrows tV)) @ (w1 @ ws)"
      by (simp add: w1 wlb w0 wp)
    then show "\<exists>wa wb. warnings (sink self') = warnings (sink self) @ wa @
         map (\<lambda>r. (case_id_fun (sink la) r, V @ '' perdida''))
           (filter (\<lambda>r. isna (row_val r V)) (iterrows tV)) @ wb"
      by blast
  qed
  from sp a c co pv wlb ixb r post w0 w1 only sub fin hk show ?thesis by blast
qed

text \<open>
  The example load: \<open>age\<close> is the first column of the pass; the record with the missing
  age gets one warning and is dropped, and the \<open>age\<close> column of the result has no
  missing value.
\<close>

theorem mandatory_no_missing_witness:
  "\<exists>ta la tV tb lb.
     process_vars float_cols no_int (demo_loader demo_warnings1) demo_derived [] = Inr (ta, la)
     \<and> coerce (plain TInt True)
          (setcol ta ''age_ORIGINAL'' [Num (61 / 2), NaN, Num 41]) ''age'' = Inr tV
     \<and> process_var float_cols no_int la ta ''age'' = Inr (tb, lb)
     \<and> warnings (sink lb) = warnings (sink la) @ [(''case 1'', ''age perdida'')]
     \<and> index tb = [0, 2]
     \<and> set (index demo_out) \<subseteq> set (index tb)
     \<and> (\<exists>c'. getcol demo_out ''age'' = Inr c' \<and> NaN \<notin> set c')"
proof -
  have keys: "distinct (map fst (variables (demo_loader [])))"
    by (simp add: demo_variables_def)
  have pre: "compute_derived (demo_loader []) demo_raw Pre
      = Inr (demo_derived, demo_loader demo_warnings1)"
    using demo_pre [of "[]"] by simp
  have pp: "preprocess float_cols no_int (demo_loader []) demo_raw
      = Inr (demo_out, demo_loader demo_warnings)"
    using demo_preprocess [of "[]"] by simp
  have vd: "map_of (variables (demo_loader [])) ''age'' = Some (plain TInt True)"
    by (simp add: demo_variables_def)
  have man: "mandatory (plain TInt True)" and npost: "computation_post (plain TInt True) = None"
    by (simp_all add: plain_def)
  have col: "''age'' \<in> set (columns demo_derived)"
    by (simp add: columns_def demo_derived_def)
  have hyg: "\<forall>x \<in> fst ` set (variables (demo_loader [])). ''age'' \<noteq> x @ ''_ORIGINAL''"
    by (simp add: demo_variables_def)
  from mandatory_no_missing [OF demo_wf(1,2) keys pre pp vd man npost col hyg]
  obtain ns1 rest ta la c tV tb lb t2 l2 w0 w1 where
    sp: "columns demo_derived = ns1 @ ''age'' # rest"
    and a: "process_vars float_cols no_int (demo_loader demo_warnings1) demo_derived ns1 = Inr (ta, la)"
    and c: "getcol ta ''age'' = Inr c"
    and co: "coerce (plain TInt True) (setcol ta (''age'' @ ''_ORIGINAL'') c) ''age'' = Inr tV"
    and pv: "process_var float_cols no_int la ta ''age'' = Inr (tb, lb)"
    and wlb: "warnings (sink lb) = warnings (sink la) @
                map (\<lambda>r. (case_id_fun (sink la) r, ''age'' @ '' perdida''))
                  (filter (\<lambda>r. isna (row_val r ''age'')) (iterrows tV))"
    and ixb: "index tb = map label (filter (\<lambda>r. \<not> isna (row_val r ''age'')) (iterrows tV))"
    and r: "process_vars float_cols no_int lb tb rest = Inr (t2, l2)"
    and post: "compute_derived l2 t2 Post = Inr (demo_out, demo_loader demo_warnings)"
    and w0: "warnings (sink la) = warnings (sink (demo_loader demo_warnings1)) @ w0"
    and w1: "warnings (sink l2) = warnings (sink lb) @ w1"
    and only: "\<forall>p \<in> set (w0 @ w1). snd p \<noteq> ''age'' @ '' perdida''"
    and sub: "set (index demo_out) \<subseteq> set (index tb)"
    and fin: "\<exists>c'. getcol demo_out ''age'' = Inr c' \<and> NaN \<notin> set c'"
    and hk: "hooks_append (variables (demo_loader [])) \<longrightarrow>
               (\<exists>wa wb. warnings (sink (demo_loader demo_warnings)) =
                  warnings (sink (demo_loader [])) @ wa @
                  map (\<lambda>r. (case_id_fun (sink la) r, ''age'' @ '' perdida''))
                    (filter (\<lambda>r. isna (row_val r ''age'')) (iterrows tV)) @ wb)"
    by (elim exE conjE) (rule that; (assumption | (intro exI conjI; assumption)))
  have ns1: "ns1 = []"
  proof (cases ns1)
    case Nil
    then show ?thesis .
  next
    case (Cons x xs)
    with sp have "[''w1'', ''w2'', ''w''] = xs @ ''age'' # rest"
      by (simp add: columns_def demo_derived_def)
    then have "''age'' \<in> set [''w1'', ''w2'', ''w'']"
      by (simp only: set_append list.set) simp
    then show ?thesis by simp
  qed
  have ta: "ta = demo_derived" and la: "la = demo_loader demo_warnings1"
    using a by (simp_all add: ns1)
  have c': "c = [Num (61 / 2), NaN, Num 41]"
    using c by (simp add: ta getcol_def demo_derived_def)
  have tV: "tV = setcol demo_derived ''age_ORIGINAL'' [Num (61 / 2), NaN, Num 41]"
    using co by (simp add: coerce_def plain_def c' ta)
  have rows: "iterrows tV =
     [\<lparr>label = 0, cells = [(''age'', Num (61 / 2)), (''w1'', Num 1), (''w2'', Num 1), (''w'', Num 1),
                           (''age_ORIGINAL'', Num (61 / 2))]\<rparr>,
      \<lparr>label = 1, cells = [(''age'', NaN), (''w1'', Num 5), (''w2'', Num 7), (''w'', NaN),
                           (''age_ORIGINAL'', NaN)]\<rparr>,
      \<lparr>label = 2, cells = [(''age'', Num 41), (''w1'', Num 5), (''w2'', Num 5), (''w'', Num 5),
                           (''age_ORIGINAL'', Num 41)]\<rparr>]"
    by (simp add: tV iterrows_def row_at_def demo_derived_def setcol_def upt3)
  have "warnings (sink lb) = warnings (sink la) @ [(''case 1'', ''age perdida'')]"
    using wlb by (simp add: rows row_val_def isna_def la demo_loader_def demo_sink_def)
  moreover have "index tb = [0, 2]"
    using ixb by (simp add: rows row_val_def isna_def)
  moreover have "process_vars float_cols no_int (demo_loader demo_warnings1) demo_derived []
      = Inr (ta, la)"
    using a by (simp add: ns1)
  moreover have "coerce (plain TInt True)
      (setcol ta ''age_ORIGINAL'' [Num (61 / 2), NaN, Num 41]) ''age'' = Inr tV"
    using co by (simp add: c')
  ultimately show ?thesis using pv sub fin by blast
qed

text \<open>
  The claim as stated asks for a warning \<open><V> perdida\<close> for every row that had a missing
  \<open>V\<close>. The rows that get one are those still in the table when \<open>V\<close> is checked: a
  record that misses two mandatory variables is dropped at the first of them, and the
  second records nothing for it. Here the first record misses \<open>u\<close> and \<open>v\<close>, it is
  dropped, and the only warning is the one of \<open>u\<close>.
\<close>

theorem mandatory_earlier_drop_counterexample:
  "map_of (variables two_loader) ''v'' = Some (plain TFloat True)
   \<and> mandatory (plain TFloat True)
   \<and> cell two_raw ''v'' 0 = Some NaN
   \<and> preprocess float_cols no_int two_loader two_raw =
       Inr (two_out, two_loader\<lparr>sink := demo_sink\<lparr>warnings := [(''case 0'', ''u perdida'')]\<rparr>\<rparr>)"
  by (simp add: two_preprocess) (simp add: two_loader_def plain_def cell_def two_raw_def)

text \<open>
  A variable computed by a post-pass hook is written after the loop that makes the
  mandatory checks, and the amended claim leaves such variables out. The docstring of
  \<open>load_data\<close> promises the check for them too ("Any row with a NaN value in any
  mandatory variable will be dropped"); the code does not make it: here \<open>e\<close> is
  mandatory, the second row of the result has a missing \<open>e\<close>, the row is kept and no
  warning is recorded.
\<close>

lemma mandatory_post_derived_example:
  "map_of (variables post_loader) ''e'' = Some post_e \<and> mandatory post_e
   \<and> preprocess float_cols no_int post_loader post_raw = Inr (post_out, post_loader)
   \<and> getcol post_out ''e'' = Inr [Str ''a'', NaN]
   \<and> warnings (sink post_loader) = []"
  by (simp add: post_preprocess)
    (simp add: post_loader_def post_e_def plain_def getcol_def post_out_def demo_sink_def)

section \<open>Original values\<close>

text \<open>
  Claim C5, as amended. Let the table have distinct column names and row labels, and let
  no declared variable be named as the \<open>_ORIGINAL\<close> twin of a column of the coercion
  pass (no key of the registry is \<open>c_ORIGINAL\<close> for a column \<open>c\<close> the table has when
  the pass starts). For every such column \<open>c\<close>, the table \<open>_preprocess\<close> returns has a
  column \<open>c_ORIGINAL\<close>, and in every row that is left its cell is the cell \<open>c\<close> had in
  that row before the pass: no coercion, no mandatory check of any variable and no
  post-pass hook changes it.
\<close>

theorem original_preserved:
  assumes wf: "wf_table df" and dix: "distinct (index df)"
    and pre: "compute_derived self df Pre = Inr (df1, self1)"
    and pp: "preprocess dt py_int self df = Inr (df', self')"
    and hyg: "\<forall>n \<in> fst ` set (variables self). \<forall>x \<in> set (columns df1). n \<noteq> x @ ''_ORIGINAL''"
    and c: "c \<in> set (columns df1)"
  shows "c @ ''_ORIGINAL'' \<in> set (columns df')
         \<and> set (index df') \<subseteq> set (index df1)
         \<and> (\<forall>i \<in> set (index df'). cell df' (c @ ''_ORIGINAL'') i = cell df1 c i)"
proof -
  from pp pre obtain t2 self2 where
    pvs: "process_vars dt py_int self1 df1 (columns df1) = Inr (t2, self2)"
    and post: "compute_derived self2 t2 Post = Inr (df', self')"
    by (auto simp: preprocess_def split: sum.splits)
  from pre obtain s1 where l1: "compute_derived_loop Pre (variables self) df (sink self) = Inr (df1, s1)"
    and self1: "self1 = self\<lparr>sink := s1\<rparr>"
    by (auto simp: compute_derived_Inr)
  have e1: "evolves {n. \<exists>vd. (n, vd) \<in> set (variables self) \<and> get_hook vd Pre \<noteq> None} df df1"
    using compute_derived_loop_evolves [OF l1 wf dix] by simp
  have wf1: "wf_table df1" and d1: "distinct (index df1)" using evolvesD(1,2) [OF e1] by blast+
  note F = process_vars_frame [OF pvs wf1 d1]
  have decl: "x \<in> fst ` set (variables self)" if "x \<in> set (columns df1)" for x
  proof -
    from that obtain vx where "map_of (variables self1) x = Some vx" using F by blast
    then have "(x, vx) \<in> set (variables self)" using self1 by (auto dest: map_of_SomeD)
    then show ?thesis by (rule rev_image_eqI) simp
  qed
  have hyg1: "\<forall>x \<in> set (columns df1) \<union> {}. \<forall>y \<in> set (columns df1) \<union> {}. y \<noteq> x @ ''_ORIGINAL''"
    using hyg decl by blast
  have dc: "distinct (columns df1)" using wf1 by (simp add: wf_table_def)
  have O: "wf_table t2 \<and> distinct (index t2) \<and> set (index t2) \<subseteq> set (index df1)
         \<and> (\<forall>x \<in> set (columns df1) \<union> {}. x @ ''_ORIGINAL'' \<in> set (columns t2)
               \<and> (\<forall>i \<in> set (index t2). cell t2 (x @ ''_ORIGINAL'') i = cell df1 x i))"
    by (rule process_vars_original [OF pvs wf1 d1 dc hyg1]) simp_all
  have wf2: "wf_table t2" and d2: "distinct (index t2)" and v2: "variables self2 = variables self"
    using F self1 by simp_all
  from post obtain s3 where l3: "compute_derived_loop Post (variables self2) t2 (sink self2) = Inr (df', s3)"
    by (auto simp: compute_derived_Inr)
  have e3: "evolves {n. \<exists>vd. (n, vd) \<in> set (variables self) \<and> get_hook vd Post \<noteq> None} t2 df'"
    and i3: "index df' = index t2"
    using compute_derived_loop_evolves [OF l3 wf2 d2] v2 by simp_all
  have nw: "c @ ''_ORIGINAL'' \<notin> {n. \<exists>vd. (n, vd) \<in> set (variables self) \<and> get_hook vd Post \<noteq> None}"
    using hyg c by force
  have "c @ ''_ORIGINAL'' \<in> set (columns df')"
    using O c evolvesD(4) [OF e3] by auto
  moreover have "set (index df') \<subseteq> set (index df1)" using O i3 by simp
  moreover have "\<forall>i \<in> set (index df'). cell df' (c @ ''_ORIGINAL'') i = cell df1 c i"
  proof
    fix i assume i: "i \<in> set (index df')"
    have "cell df' (c @ ''_ORIGINAL'') i = cell t2 (c @ ''_ORIGINAL'') i"
      using evolvesD(5) [OF e3 nw i] .
    also have "\<dots> = cell df1 c i" using O c i i3 by simp
    finally show "cell df' (c @ ''_ORIGINAL'') i = cell df1 c i" .
  qed
  ultimately show ?thesis by blast
qed

text \<open>
  The example load: 5 is no boolean and is coerced to missing in \<open>w1\<close>, and
  \<open>w1_ORIGINAL\<close> keeps the 5.
\<close>

theorem original_preserved_witness:
  "''w1_ORIGINAL'' \<in> set (columns demo_out)
   \<and> set (index demo_out) \<subseteq> set (index demo_derived)
   \<and> cell demo_out ''w1_ORIGINAL'' 2 = cell demo_derived ''w1'' 2
   \<and> cell demo_derived ''w1'' 2 = Some (Num 5)
   \<and> cell demo_out ''w1'' 2 = Some NaN"
proof -
  have pre: "compute_derived (demo_loader []) demo_raw Pre = Inr (demo_derived, demo_loader demo_warnings1)"
    using demo_pre [of "[]"] by simp
  have pp: "preprocess float_cols no_int (demo_loader []) demo_raw = Inr (demo_out, demo_loader demo_warnings)"
    using demo_preprocess [of "[]"] by simp
  have c: "''w1'' \<in> set (columns demo_derived)"
    by (simp add: columns_def demo_derived_def)
  note T = original_preserved [OF demo_wf(1,2) pre pp demo_hygiene c]
  have i: "2 \<in> set (index demo_out)" by (simp add: demo_out_def)
  have "cell demo_out (''w1'' @ ''_ORIGINAL'') 2 = cell demo_derived ''w1'' 2"
    using T i by blast
  moreover have "cell demo_derived ''w1'' 2 = Some (Num 5)"
    by (simp add: cell_def demo_derived_def)
  moreover have "cell demo_out ''w1'' 2 = Some NaN"
    by (simp add: cell_def demo_out_def)
  ultimately show ?thesis using T by simp
qed

text \<open>
  The claim as stated has no condition on the names. When the registry declares \<open>x\<close>
  and \<open>x_ORIGINAL\<close>, the copy made for \<open>x\<close> overwrites the column the second variable
  was read into, and that column is then coerced as a variable of its own:
  \<open>x_ORIGINAL\<close> ends as missing where \<open>x\<close> was 5, and \<open>x_ORIGINAL_ORIGINAL\<close> holds 5
  where the file had 7.
\<close>

theorem original_twin_counterexample:
  "map fst (variables twin_loader) = [''x'', ''x_ORIGINAL'']
   \<and> columns twin_raw = [''x'', ''x_ORIGINAL'']
   \<and> preprocess float_cols no_int twin_loader twin_raw = Inr (twin_out, twin_loader)
   \<and> cell twin_raw ''x'' 0 = Some (Num 5)
   \<and> cell twin_out ''x_ORIGINAL'' 0 = Some NaN
   \<and> cell twin_raw ''x_ORIGINAL'' 0 = Some (Num 7)
   \<and> cell twin_out ''x_ORIGINAL_ORIGINAL'' 0 = Some (Num 5)"
  by (simp add: twin_preprocess)
    (simp add: twin_loader_def columns_def twin_raw_def twin_out_def cell_def)

section \<open>Dropping rows and casting\<close>



text \<open>
  When the cast raises, it has still been given the column without its missing values:
  for a mandatory Int variable the step is the cast of that column, with its error if it
  has one (\<open>process_var_int\<close>), and on missing values and finite numbers whose integer
  part fits 64 bits it returns (\<open>process_var_total\<close>).
\<close>

section \<open>load_data\<close>

text \<open>
  Claim C7. A load that completes has read from the file the columns named by the
  variables with neither computation key, and only those, in the file's order; it has
  run \<open>_preprocess\<close> on that table; and it has added to the report exactly one table,
  with id \<open>warnings\<close> under \<open>root\<close>, the headings \<open>Caso\<close> and the empty string, and the
  loader's warnings as rows.
\<close>

theorem load_data_reads_and_publishes:
  assumes "load_data dt py_int fs self fname ctx na_values = Inr (df', self', ctx')"
  shows "\<exists>f df. fs fname = Inr f
           \<and> read_csv fs fname (csv_varnames self) na_values = Inr df
           \<and> columns df = filter (\<lambda>h. h \<in> set (csv_varnames self)) (header f)
           \<and> set (columns df) =
               {n. \<exists>vd. (n, vd) \<in> set (variables self)
                        \<and> computation_pre vd = None \<and> computation_post vd = None}
           \<and> preprocess dt py_int self df = Inr (df', self')
           \<and> ctx' = ctx @
               [\<lparr>result_id = ''root'', table_id = ''warnings'', title = ''Warnings'',
                 headings = [''Caso'', ''''], rows = warnings (sink self')\<rparr>]"
proof -
  from assms obtain df where rd: "read_csv fs fname (csv_varnames self) na_values = Inr df"
    and pp: "preprocess dt py_int self df = Inr (df', self')"
    and cx: "ctx' = ctx @ [\<lparr>result_id = ''root'', table_id = ''warnings'', title = ''Warnings'',
                        headings = [''Caso'', ''''], rows = warnings (sink self')\<rparr>]"
    by (rule load_data_Inr)
  from rd obtain f where f: "fs fname = Inr f" and sub: "set (csv_varnames self) \<subseteq> set (header f)"
    and cols: "columns df = filter (\<lambda>h. h \<in> set (csv_varnames self)) (header f)"
    by (rule read_csv_Inr)
  have "set (columns df) = set (csv_varnames self)" using sub cols by auto
  then have "set (columns df) =
               {n. \<exists>vd. (n, vd) \<in> set (variables self)
                        \<and> computation_pre vd = None \<and> computation_post vd = None}"
    by (simp add: set_csv_varnames)
  with f rd cols pp cx show ?thesis by blast
qed

text \<open>The example load reads \<open>age\<close>, \<open>w1\<close> and \<open>w2\<close>: not the derived \<open>w\<close>, and not
  the undeclared \<open>notes\<close>.\<close>

theorem load_data_reads_and_publishes_witness:
  "\<exists>f df. demo_fs ''data.csv'' = Inr f
     \<and> read_csv demo_fs ''data.csv'' (csv_varnames (demo_loader [])) ['' ''] = Inr df
     \<and> header f = [''age'', ''w1'', ''w2'', ''notes'']
     \<and> columns df = [''age'', ''w1'', ''w2'']
     \<and> preprocess float_cols no_int (demo_loader []) df = Inr (demo_out, demo_loader demo_warnings)"
proof -
  have l: "load_data float_cols no_int demo_fs (demo_loader []) ''data.csv'' [] ['' ''] =
      Inr (demo_out, demo_loader demo_warnings, [warnings_table demo_warnings])"
    using demo_load [of "[]" "[]"] by simp
  from load_data_reads_and_publishes [OF l] obtain f df where
    f: "demo_fs ''data.csv'' = Inr f"
    and rd: "read_csv demo_fs ''data.csv'' (csv_varnames (demo_loader [])) ['' ''] = Inr df"
    and cols: "columns df = filter (\<lambda>h. h \<in> set (csv_varnames (demo_loader []))) (header f)"
    and pp: "preprocess float_cols no_int (demo_loader []) df = Inr (demo_out, demo_loader demo_warnings)"
    by blast
  from f have hf: "header f = [''age'', ''w1'', ''w2'', ''notes'']"
    by (auto simp: demo_fs_def demo_file_def)
  then have "columns df = [''age'', ''w1'', ''w2'']"
    using cols by (simp add: demo_csv_varnames)
  with f rd hf pp show ?thesis by blast
qed

section \<open>The warning log is append-only\<close>

lemma apply_rows_appends:
  assumes "\<And>r s v s'. f r s = Inr (v, s') \<Longrightarrow> appends s s'"
  shows "apply_rows f rs s = Inr (vs, s') \<Longrightarrow> appends s s'"
proof (induction rs arbitrary: s vs)
  case Nil
  then show ?case by (simp add: appends_refl)
next
  case (Cons r rs)
  then obtain v s1 vs1 where a: "f r s = Inr (v, s1)" and b: "apply_rows f rs s1 = Inr (vs1, s')"
    by (auto split: sum.splits)
  from assms [OF a] Cons.IH [OF b] show ?case by (rule appends_trans)
qed

lemma df_apply_appends:
  assumes "\<And>r s v s'. f r s = Inr (v, s') \<Longrightarrow> appends s s'"
    and "df_apply f t s = Inr (ser, s')"
  shows "appends s s'"
proof -
  from assms(2) obtain vs where "apply_rows f (iterrows t) s = Inr (vs, s')"
    by (auto simp: df_apply_def split: sum.splits)
  with assms(1) show ?thesis by (rule apply_rows_appends)
qed

lemma combine_variables_row_appends:
  "combine_variables_row fmt r a b oc na s = Inr (v, s') \<Longrightarrow> appends s s'"
  by (auto simp: combine_variables_row_def Let_def appends_refl appends_add_warning
      split: sum.splits if_splits)

lemma combine_variables_appends:
  "combine_variables fmt a b oc na t s = Inr (ser, s') \<Longrightarrow> appends s s'"
  unfolding combine_variables_def
  by (erule df_apply_appends [rotated]) (rule combine_variables_row_appends)

lemma multibool_to_enum_row_appends:
  "multibool_to_enum_row fmt r vars na s = Inr (v, s') \<Longrightarrow> appends s s'"
  by (auto simp: multibool_to_enum_row_def Let_def appends_refl appends_add_warning
      split: sum.splits if_splits)

lemma multibool_to_enum_appends:
  "multibool_to_enum fmt vars na t s = Inr (ser, s') \<Longrightarrow> appends s s'"
  unfolding multibool_to_enum_def
  by (erule df_apply_appends [rotated]) (rule multibool_to_enum_row_appends)

lemma logical_res_appends:
  "logical_res tc fc varnames t s = Inr (ser, s') \<Longrightarrow> appends s s'"
  by (auto simp: logical_res_def appends_refl split: sum.splits)

lemma demo_hooks_append: "hooks_append (variables (demo_loader ws))"
  unfolding hooks_append_def
  using combine_variables_appends
  by (auto simp: demo_variables_def plain_def appends_def)

text \<open>
  Claim C9. \<open>add_warning\<close> appends exactly one pair at the end of the log, with the
  case identifier computed by \<open>case_id_fun\<close> when it is given a row, and changes nothing
  else. When the hooks of the registry use the loader only to append warnings, a load
  leaves the warnings it found as a prefix of the log, and a second load with the same
  loader starts from the log of the first: the table it publishes holds the warnings of
  both loads, in order.
\<close>

theorem warnings_append_only:
  assumes hooks: "hooks_append (variables self)"
    and l1: "load_data dt py_int fs1 self f1 ctx na1 = Inr (df1, self1, ctx1)"
    and l2: "load_data dt py_int fs2 self1 f2 ctx1 na2 = Inr (df2, self2, ctx2)"
  shows "add_warning s c msg =
           s\<lparr>warnings := warnings s @
                [(case c of CaseId i \<Rightarrow> i | CaseRow r \<Rightarrow> case_id_fun s r, msg)]\<rparr>
         \<and> (\<exists>w1 w2. warnings (sink self1) = warnings (sink self) @ w1
               \<and> warnings (sink self2) = warnings (sink self) @ w1 @ w2
               \<and> ctx2 = ctx @
                   [\<lparr>result_id = ''root'', table_id = ''warnings'', title = ''Warnings'',
                     headings = [''Caso'', ''''], rows = warnings (sink self) @ w1\<rparr>,
                    \<lparr>result_id = ''root'', table_id = ''warnings'', title = ''Warnings'',
                     headings = [''Caso'', ''''], rows = warnings (sink self) @ w1 @ w2\<rparr>])"
proof
  show "add_warning s c msg =
           s\<lparr>warnings := warnings s @
                [(case c of CaseId i \<Rightarrow> i | CaseRow r \<Rightarrow> case_id_fun s r, msg)]\<rparr>"
    by (cases c) (simp_all add: add_warning_def)
next
  from l1 obtain t1 where p1: "preprocess dt py_int self t1 = Inr (df1, self1)"
    and c1: "ctx1 = ctx @ [\<lparr>result_id = ''root'', table_id = ''warnings'', title = ''Warnings'',
                        headings = [''Caso'', ''''], rows = warnings (sink self1)\<rparr>]"
    by (rule load_data_Inr)
  from l2 obtain t2 where p2: "preprocess dt py_int self1 t2 = Inr (df2, self2)"
    and c2: "ctx2 = ctx1 @ [\<lparr>result_id = ''root'', table_id = ''warnings'', title = ''Warnings'',
                        headings = [''Caso'', ''''], rows = warnings (sink self2)\<rparr>]"
    by (rule load_data_Inr)
  note A = preprocess_appends [OF p1 hooks]
  have "hooks_append (variables self1)" using A hooks by simp
  note B = preprocess_appends [OF p2 this]
  from A obtain w1 where w1: "sink self1 = (sink self)\<lparr>warnings := warnings (sink self) @ w1\<rparr>"
    unfolding appends_def by blast
  from B obtain w2 where w2: "sink self2 = (sink self1)\<lparr>warnings := warnings (sink self1) @ w2\<rparr>"
    unfolding appends_def by blast
  have "warnings (sink self1) = warnings (sink self) @ w1"
    by (subst w1) simp
  moreover have "warnings (sink self2) = warnings (sink self) @ w1 @ w2"
    by (subst w2, subst w1) simp
  ultimately show "\<exists>w1 w2. warnings (sink self1) = warnings (sink self) @ w1
               \<and> warnings (sink self2) = warnings (sink self) @ w1 @ w2
               \<and> ctx2 = ctx @
                   [\<lparr>result_id = ''root'', table_id = ''warnings'', title = ''Warnings'',
                     headings = [''Caso'', ''''], rows = warnings (sink self) @ w1\<rparr>,
                    \<lparr>result_id = ''root'', table_id = ''warnings'', title = ''Warnings'',
                     headings = [''Caso'', ''''], rows = warnings (sink self) @ w1 @ w2\<rparr>]"
    using c1 c2 by auto
qed

text \<open>Loading the example file twice with one loader.\<close>

theorem warnings_append_only_witness:
  "add_warning demo_sink (CaseId ''case 7'') ''note'' =
     demo_sink\<lparr>warnings := [(''case 7'', ''note'')]\<rparr>
   \<and> load_data float_cols no_int demo_fs (demo_loader []) ''data.csv'' [] ['' ''] =
       Inr (demo_out, demo_loader demo_warnings, [warnings_table demo_warnings])
   \<and> load_data float_cols no_int demo_fs (demo_loader demo_warnings) ''data.csv''
         [warnings_table demo_warnings] ['' ''] =
       Inr (demo_out, demo_loader (demo_warnings @ demo_warnings),
            [warnings_table demo_warnings, warnings_table (demo_warnings @ demo_warnings)])
   \<and> (\<exists>w1 w2. warnings (sink (demo_loader demo_warnings)) = w1
          \<and> warnings (sink (demo_loader (demo_warnings @ demo_warnings))) = w1 @ w2)"
proof -
  have l1: "load_data float_cols no_int demo_fs (demo_loader []) ''data.csv'' [] ['' ''] =
       Inr (demo_out, demo_loader demo_warnings, [warnings_table demo_warnings])"
    using demo_load [of "[]" "[]"] by simp
  have l2: "load_data float_cols no_int demo_fs (demo_loader demo_warnings) ''data.csv''
         [warnings_table demo_warnings] ['' ''] =
       Inr (demo_out, demo_loader (demo_warnings @ demo_warnings),
            [warnings_table demo_warnings, warnings_table (demo_warnings @ demo_warnings)])"
    using demo_load [of demo_warnings "[warnings_table demo_warnings]"] by simp
  note T = warnings_append_only [OF demo_hooks_append l1 l2,
      of demo_sink "CaseId ''case 7''" "''note''"]
  from T have "add_warning demo_sink (CaseId ''case 7'') ''note'' =
     demo_sink\<lparr>warnings := [(''case 7'', ''note'')]\<rparr>"
    by (simp add: demo_sink_def)
  moreover from T have "\<exists>w1 w2. warnings (sink (demo_loader demo_warnings)) = w1
          \<and> warnings (sink (demo_loader (demo_warnings @ demo_warnings))) = w1 @ w2"
    by auto
  ultimately show ?thesis using l1 l2 by blast
qed

section \<open>Failures and completion\<close>




end
